theory Spec2Isabelle
  imports Main "HOL-Library.Char_ord" "HOL-Library.List_Lexorder"
begin

section \<open>Python strings\<close>

text \<open>
  Python's \<open>str.split(sep)\<close> for a one-character separator: the pieces between the
  separators, so that the empty string gives one empty piece.
\<close>

fun split_on :: "char \<Rightarrow> string \<Rightarrow> string list" where
  "split_on c [] = [[]]"
| "split_on c (x # xs) =
     (if x = c then [] # split_on c xs
      else (case split_on c xs of
              [] \<Rightarrow> [[x]]
            | w # ws \<Rightarrow> (x # w) # ws))"

text \<open>\<open>sep.join(parts)\<close>.\<close>

fun join :: "string \<Rightarrow> string list \<Rightarrow> string" where
  "join sep [] = []"
| "join sep [x] = x"
| "join sep (x # y # ys) = x @ sep @ join sep (y # ys)"

text \<open>\<open>s.startswith(p)\<close> and the substring test \<open>p in s\<close>.\<close>

fun startswith :: "string \<Rightarrow> string \<Rightarrow> bool" where
  "startswith s [] = True"
| "startswith [] (p # ps) = False"
| "startswith (x # xs) (p # ps) = (x = p \<and> startswith xs ps)"

fun contains :: "string \<Rightarrow> string \<Rightarrow> bool" where
  "contains [] p = (p = [])"
| "contains (x # xs) p = (startswith (x # xs) p \<or> contains xs p)"

section \<open>Results of a call\<close>

text \<open>
  A call returns a value, raises, or does not come back within the recursion depth
  it was given.
\<close>

datatype error = KeyError string | AttributeError string | TypeError string

datatype 'a res = OutOfFuel | Raise error | Return 'a

fun res_bind :: "'a res \<Rightarrow> ('a \<Rightarrow> 'b res) \<Rightarrow> 'b res" where
  "res_bind OutOfFuel f = OutOfFuel"
| "res_bind (Raise e) f = Raise e"
| "res_bind (Return x) f = f x"

section \<open>The registry\<close>

text \<open>
  What the checker reads of an XML element: its name (\<open>getElemName\<close>) and the source
  line the parser may have attached to it.
\<close>

record elem =
  e_name :: string
  e_sourceline :: "nat option"

text \<open>The parsed \<open>externsync\<close> and \<open>len\<close> attributes of a member or parameter.\<close>

record externsync_entry =
  entirely_extern_sync :: bool
  es_member :: string

record length_entry =
  other_param_name :: "string option"

text \<open>
  A \<open>member\<close> or \<open>param\<close> element: its name, the concatenation of all its text
  (\<open>"".join(elem.itertext())\<close>), the text of its \<open>type\<close> child when it has one, and its
  parsed attributes.
\<close>

record member_elem =
  m_name :: string
  m_text :: string
  m_type :: "string option"
  m_externsync :: "externsync_entry list"
  m_len :: "length_entry list"

record type_info =
  t_elem :: elem
  t_category :: "string option"
  t_parent :: "string option"
  t_members :: "member_elem list"

record cmd_info =
  c_elem :: elem
  c_params :: "member_elem list"
  c_errorcodes :: "string option"
  c_successcodes :: "string option"

record ext_info =
  x_elem :: elem
  x_supported :: "string option"

text \<open>Dictionaries keep their insertion order: association lists.\<close>

record registry =
  cmddict :: "(string \<times> cmd_info) list"
  typedict :: "(string \<times> type_info) list"
  extdict :: "(string \<times> ext_info) list"
  filename :: "string option"

record conventions =
  type_prefix :: string
  xml_api_name :: string

text \<open>\<open>d[k] = v\<close> on a dictionary.\<close>

fun dict_set :: "('k \<times> 'v) list \<Rightarrow> 'k \<Rightarrow> 'v \<Rightarrow> ('k \<times> 'v) list" where
  "dict_set [] k v = [(k, v)]"
| "dict_set ((k', v') # d) k v =
     (if k' = k then (k', v) # d else (k', v') # dict_set d k v)"

section \<open>DictOfStringSets\<close>

text \<open>
  Modelled from the spec: \<open>DictOfStringSets\<close> (\<open>spec_tools/data_structures.py\<close>, which
  is not among the sources). The spec speaks of per-entity buckets of messages and of
  sets of outcome codes whose lookup gives an empty set for an absent key; the source
  names the class a dictionary of string sets, gives \<open>set()\<close> as the default of its
  lookups and takes differences and intersections of its values. So it is a dictionary
  whose values are sets of strings: \<open>add(k, v)\<close> puts the string \<open>v\<close>, or every string of
  the collection \<open>v\<close>, into the set at \<open>k\<close>, which it creates when the key is new.
  \<open>add_set\<close> is \<open>add\<close> called with a set (or, with a singleton, with one string); \<open>add\<close>
  is \<open>add\<close> called with a value of a configuration dictionary, a string or a collection
  of strings.
\<close>

datatype str_or_strs = Str string | Strs "string list"

fun strs_of :: "str_or_strs \<Rightarrow> string set" where
  "strs_of (Str s) = {s}"
| "strs_of (Strs xs) = set xs"

type_synonym DictOfStringSets = "(string \<times> string set) list"

fun add_set :: "DictOfStringSets \<Rightarrow> string \<Rightarrow> string set \<Rightarrow> DictOfStringSets" where
  "add_set [] k S = [(k, S)]"
| "add_set ((k', S') # d) k S =
     (if k' = k then (k', S' \<union> S) # d else (k', S') # add_set d k S)"

definition add :: "DictOfStringSets \<Rightarrow> string \<Rightarrow> str_or_strs \<Rightarrow> DictOfStringSets" where
  "add d k v = add_set d k (strs_of v)"

text \<open>\<open>DictOfStringSets(d)\<close>: every entry of \<open>d\<close> added to an empty dictionary.\<close>

definition DictOfStringSets :: "(string \<times> str_or_strs) list \<Rightarrow> DictOfStringSets" where
  "DictOfStringSets d = fold (\<lambda>(k, v) acc. add acc k v) d []"

text \<open>\<open>d.get(k, set())\<close>.\<close>

definition get_or_empty :: "DictOfStringSets \<Rightarrow> string \<Rightarrow> string set" where
  "get_or_empty d k = (case map_of d k of None \<Rightarrow> {} | Some S \<Rightarrow> S)"

section \<open>HandleParents\<close>

text \<open>
  Modelled from the spec: \<open>RecursiveMemoize\<close> (\<open>spec_tools/algo.py\<close>, which is not among
  the sources), as \<open>HandleParents\<close> uses it: the result for a handle is memoized per
  handle name in the dictionary \<open>d\<close>, every key given at construction is computed then,
  and a cyclic parent declaration recurses without bound (no recursion depth is enough).
\<close>

fun HandleParents_extend ::
  "(string \<Rightarrow> (string \<times> string list) list \<Rightarrow> (string list \<times> (string \<times> string list) list) res)
   \<Rightarrow> string list \<Rightarrow> string list \<Rightarrow> (string \<times> string list) list
   \<Rightarrow> (string list \<times> (string \<times> string list) list) res" where
  "HandleParents_extend self [] all_parents d = Return (all_parents, d)"
| "HandleParents_extend self (parent # ps) all_parents d =
     res_bind (self parent d)
       (\<lambda>(r, d'). HandleParents_extend self ps (all_parents @ r) d')"

text \<open>
  \<open>HandleParents.compute\<close>; \<open>self\<close> stands for \<open>self[...]\<close>, the memoized lookup.
\<close>

definition HandleParents_compute ::
  "(string \<Rightarrow> (string \<times> string list) list \<Rightarrow> (string list \<times> (string \<times> string list) list) res)
   \<Rightarrow> (string \<times> type_info) list \<Rightarrow> string \<Rightarrow> (string \<times> string list) list
   \<Rightarrow> (string list \<times> (string \<times> string list) list) res" where
  "HandleParents_compute self handle_types handle_type d =
     (case map_of handle_types handle_type of
        None \<Rightarrow> Raise (KeyError handle_type)
      | Some info \<Rightarrow>
          (case t_parent info of
             None \<Rightarrow> Return ([], d)
           | Some immediate_parent \<Rightarrow>
               (let immediate_parents = split_on CHR '','' immediate_parent
                in HandleParents_extend self immediate_parents immediate_parents d)))"

primrec HandleParents_getitem ::
  "nat \<Rightarrow> (string \<times> type_info) list \<Rightarrow> string \<Rightarrow> (string \<times> string list) list
   \<Rightarrow> (string list \<times> (string \<times> string list) list) res" where
  "HandleParents_getitem 0 handle_types key d = OutOfFuel"
| "HandleParents_getitem (Suc n) handle_types key d =
     (case map_of d key of
        Some ret \<Rightarrow> Return (ret, d)
      | None \<Rightarrow>
          res_bind (HandleParents_compute (HandleParents_getitem n handle_types) handle_types key d)
            (\<lambda>(ret, d'). Return (ret, dict_set d' key ret)))"

fun HandleParents_populate ::
  "(string \<Rightarrow> (string \<times> string list) list \<Rightarrow> (string list \<times> (string \<times> string list) list) res)
   \<Rightarrow> string list \<Rightarrow> (string \<times> string list) list \<Rightarrow> (string \<times> string list) list res" where
  "HandleParents_populate self [] d = Return d"
| "HandleParents_populate self (key # keys) d =
     res_bind (self key d) (\<lambda>(r, d'). HandleParents_populate self keys d')"

text \<open>\<open>HandleParents(handle_types).get_dict()\<close>, with recursion depth \<open>n\<close>.\<close>

definition HandleParents :: "nat \<Rightarrow> (string \<times> type_info) list \<Rightarrow> (string \<times> string list) list res" where
  "HandleParents n handle_types =
     HandleParents_populate (HandleParents_getitem n handle_types) (map fst handle_types) []"

text \<open>
  The immediate parents \<open>compute\<close> reads for a handle: the \<open>parent\<close> attribute split at
  commas, and none when the attribute is absent.
\<close>

definition parents_of :: "(string \<times> type_info) list \<Rightarrow> string \<Rightarrow> string list" where
  "parents_of hts h =
     (case map_of hts h of
        None \<Rightarrow> []
      | Some info \<Rightarrow> (case t_parent info of None \<Rightarrow> [] | Some p \<Rightarrow> split_on CHR '','' p))"

section \<open>HandleData\<close>

definition handle_types :: "registry \<Rightarrow> (string \<times> type_info) list" where
  "handle_types reg = filter (\<lambda>(type_name, info). t_category info = Some ''handle'') (typedict reg)"

definition ancestors_dict :: "nat \<Rightarrow> registry \<Rightarrow> (string \<times> string list) list res" where
  "ancestors_dict n reg = HandleParents n (handle_types reg)"

text \<open>\<open>HandleData.descendants_dict\<close>, from the dictionary of ancestors.\<close>

definition get_descendants :: "(string \<times> string list) list \<Rightarrow> string \<Rightarrow> string set" where
  "get_descendants handle_parents handle =
     set (filter (\<lambda>h. case map_of handle_parents h of
                         None \<Rightarrow> False
                       | Some ancestors \<Rightarrow> handle \<in> set ancestors)
            (map fst handle_parents))"

definition descendants_of :: "(string \<times> string list) list \<Rightarrow> DictOfStringSets" where
  "descendants_of handle_parents =
     map (\<lambda>h. (h, get_descendants handle_parents h)) (map fst handle_parents)"

definition descendants_dict :: "nat \<Rightarrow> registry \<Rightarrow> DictOfStringSets res" where
  "descendants_dict n reg = res_bind (ancestors_dict n reg) (\<lambda>a. Return (descendants_of a))"

section \<open>ReferencedTypes\<close>

text \<open>
  The entity database, as \<open>ReferencedTypes\<close> reads it: \<open>db.getMemberElems(name)\<close> gives
  the members of a type or the parameters of a command, or nothing.
\<close>

definition getMemberElems :: "(string \<times> member_elem list) list \<Rightarrow> string \<Rightarrow> member_elem list option" where
  "getMemberElems db type_name = map_of db type_name"

text \<open>
  The loop \<open>for t in types: referenced = self[t]; if referenced is not None:
  all_types.update(referenced)\<close>.
\<close>

fun ReferencedTypes_update ::
  "(string \<Rightarrow> (string \<times> string set option) list \<Rightarrow> (string set option \<times> (string \<times> string set option) list) res)
   \<Rightarrow> string list \<Rightarrow> string set \<Rightarrow> (string \<times> string set option) list
   \<Rightarrow> (string set \<times> (string \<times> string set option) list) res" where
  "ReferencedTypes_update self [] all_types d = Return (all_types, d)"
| "ReferencedTypes_update self (t # ts) all_types d =
     res_bind (self t d)
       (\<lambda>(referenced, d').
          ReferencedTypes_update self ts
            (case referenced of None \<Rightarrow> all_types | Some r \<Rightarrow> all_types \<union> r) d')"

text \<open>
  The types a list of members names directly: the text of the \<open>type\<close> child of every
  member that has one and satisfies the predicate.
\<close>

definition direct_types :: "(member_elem \<Rightarrow> bool) \<Rightarrow> member_elem list \<Rightarrow> string list" where
  "direct_types predicate members =
     concat (map (\<lambda>member. case m_type member of
                               None \<Rightarrow> []
                             | Some t \<Rightarrow> if predicate member then [t] else []) members)"

text \<open>
  \<open>ReferencedTypes.compute\<close>. \<open>iter\<close> is the order in which Python iterates over a set,
  which the language leaves open.
\<close>

definition ReferencedTypes_compute ::
  "(string \<Rightarrow> (string \<times> string set option) list \<Rightarrow> (string set option \<times> (string \<times> string set option) list) res)
   \<Rightarrow> (string set \<Rightarrow> string list) \<Rightarrow> (string \<times> member_elem list) list \<Rightarrow> (member_elem \<Rightarrow> bool)
   \<Rightarrow> string \<Rightarrow> (string \<times> string set option) list
   \<Rightarrow> (string set \<times> (string \<times> string set option) list) res" where
  "ReferencedTypes_compute self iter db predicate type_name d =
     (case getMemberElems db type_name of
        None \<Rightarrow> Return ({}, d)
      | Some members \<Rightarrow>
          if members = [] then Return ({}, d)
          else (let types = set (direct_types predicate members);
                    all_types = types
                in ReferencedTypes_update self (iter types) all_types d))"

text \<open>
  Modelled from the spec: \<open>RecursiveMemoize.__getitem__\<close> (\<open>spec_tools/algo.py\<close>, which
  is not among the sources) with \<open>permit_cycles=True\<close>: a result is memoized per key, and
  a key that is being computed is marked in the dictionary (the value \<open>None\<close>), so that
  asking for it again gives \<open>None\<close>, its empty in-progress contribution, instead of
  entering the computation a second time.
\<close>

primrec ReferencedTypes_getitem ::
  "nat \<Rightarrow> (string set \<Rightarrow> string list) \<Rightarrow> (string \<times> member_elem list) list \<Rightarrow> (member_elem \<Rightarrow> bool)
   \<Rightarrow> string \<Rightarrow> (string \<times> string set option) list
   \<Rightarrow> (string set option \<times> (string \<times> string set option) list) res" where
  "ReferencedTypes_getitem 0 iter db predicate key d = OutOfFuel"
| "ReferencedTypes_getitem (Suc n) iter db predicate key d =
     (case map_of d key of
        Some ret \<Rightarrow> Return (ret, d)
      | None \<Rightarrow>
          res_bind (ReferencedTypes_compute (ReferencedTypes_getitem n iter db predicate)
                      iter db predicate key (dict_set d key None))
            (\<lambda>(ret, d'). Return (Some ret, dict_set d' key (Some ret))))"

text \<open>Every type name that some member in the database names.\<close>

definition db_types :: "(string \<times> member_elem list) list \<Rightarrow> string list" where
  "db_types db = concat (map (\<lambda>(name, members). direct_types (\<lambda>member. True) members) db)"

section \<open>Classifying a member by its text\<close>

text \<open>
  The word characters of a regular expression on a Python string, which \<open>\b\<close> tells
  from the others. A \<open>char\<close> of the text is one of its characters; those with the top
  bit set stand for the characters beyond ASCII. The ASCII word characters are the
  letters, the digits and the underscore; which characters beyond ASCII are word
  characters is decided by Python's Unicode tables, taken here as \<open>unicode_word\<close>.
\<close>

definition is_word_char :: "(char \<Rightarrow> bool) \<Rightarrow> char \<Rightarrow> bool" where
  "is_word_char unicode_word c =
     (if digit7 c then unicode_word c
      else c \<in> set ''abcdefghijklmnopqrstuvwxyzABCDEFGHIJKLMNOPQRSTUVWXYZ0123456789_'')"

text \<open>
  \<open>re.compile(r"\bconst\b").search(text)\<close>: the word \<open>const\<close> with no word character
  before or after it. The flag says whether the character before the current position
  is a word character.
\<close>

fun CONST_RE_from :: "(char \<Rightarrow> bool) \<Rightarrow> bool \<Rightarrow> string \<Rightarrow> bool" where
  "CONST_RE_from unicode_word prev_word [] = False"
| "CONST_RE_from unicode_word prev_word (x # xs) =
     ((\<not> prev_word \<and> startswith (x # xs) ''const'' \<and>
       (case drop 5 (x # xs) of [] \<Rightarrow> True | y # ys \<Rightarrow> \<not> is_word_char unicode_word y))
      \<or> CONST_RE_from unicode_word (is_word_char unicode_word x) xs)"

definition CONST_RE_search :: "(char \<Rightarrow> bool) \<Rightarrow> string \<Rightarrow> bool" where
  "CONST_RE_search unicode_word text = CONST_RE_from unicode_word False text"

text \<open>
  \<open>re.compile(r"\[[^]]+\]").search(text)\<close>: an opening bracket, at least one character
  that is not a closing bracket, and a closing bracket.
\<close>

fun ARRAY_RE_search :: "string \<Rightarrow> bool" where
  "ARRAY_RE_search [] = False"
| "ARRAY_RE_search (x # xs) =
     ((x = CHR ''['' \<and> (case xs of [] \<Rightarrow> False | y # ys \<Rightarrow> y \<noteq> CHR '']'' \<and> CHR '']'' \<in> set ys))
      \<or> ARRAY_RE_search xs)"

definition is_api_type :: "conventions \<Rightarrow> member_elem \<Rightarrow> bool" where
  "is_api_type conv member_elem =
     (let membertext = m_text member_elem
      in contains membertext (type_prefix conv))"

definition is_input :: "(char \<Rightarrow> bool) \<Rightarrow> conventions \<Rightarrow> member_elem \<Rightarrow> bool" where
  "is_input unicode_word conv member_elem =
     (let membertext = m_text member_elem
      in if \<not> contains membertext (type_prefix conv) then False
         else (let ret = True
               in if CONST_RE_search unicode_word membertext then True
                  else if contains membertext ''*'' then False
                  else if ARRAY_RE_search membertext then False
                  else ret))"

section \<open>The two maps between input types and return codes\<close>

text \<open>
  \<open>compute_type_to_codes\<close>, given \<open>handle_data.ancestors_dict\<close>. Its argument is a
  \<open>DictOfStringSets\<close> already, so that \<open>DictOfStringSets(types_to_codes)\<close> has the same
  entries. The source builds the set \<open>codes\<close> empty and calls \<open>codes.union(...)\<close>, which
  returns a new set and leaves \<open>codes\<close> as it was; the result of the call is not used.
\<close>

definition compute_type_to_codes ::
  "(string \<times> string list) list \<Rightarrow> DictOfStringSets \<Rightarrow> (DictOfStringSets \<Rightarrow> DictOfStringSets)
   \<Rightarrow> DictOfStringSets" where
  "compute_type_to_codes handle_ancestors types_to_codes extra_op =
     (let types_to_codes = extra_op types_to_codes;
          extra_handle_codes =
            map (\<lambda>(handle_type, ancestors).
                   (let codes = {};
                        ancestors_codes = map (get_or_empty types_to_codes) ancestors;
                        unused = codes \<union> \<Union> (set ancestors_codes)
                    in (handle_type, codes)))
              handle_ancestors
      in fold (\<lambda>(handle_type, extras) acc. add_set acc handle_type extras)
           extra_handle_codes types_to_codes)"

text \<open>
  \<open>compute_codes_requiring_type\<close>, given \<open>handle_data.descendants_dict\<close>; here too the
  argument is a \<open>DictOfStringSets\<close> already.
\<close>

definition compute_codes_requiring_type ::
  "(string set \<Rightarrow> string list) \<Rightarrow> DictOfStringSets \<Rightarrow> DictOfStringSets \<Rightarrow> DictOfStringSets" where
  "compute_codes_requiring_type iter handle_descendants types_to_codes =
     fold (\<lambda>(in_type, code_set) out.
             (let descendants = map_of handle_descendants in_type
              in fold (\<lambda>code out.
                         (let out = add_set out code {in_type}
                          in case descendants of
                               None \<Rightarrow> out
                             | Some ds \<Rightarrow> if ds \<noteq> {} then add_set out code ds else out))
                   (iter code_set) out))
       types_to_codes []"

section \<open>XMLChecker\<close>

record error_context =
  entity :: string
  ctx_elem :: elem
  ctx_name :: string
  entity_suppressions :: "string set option"

text \<open>
  The checker: what \<open>__init__\<close> sets and the checks change. \<open>ctx\<close> holds the attributes
  that only \<open>set_error_context\<close> sets; before its first call they do not exist.
\<close>

record checker =
  fail :: bool
  ctx :: "error_context option"
  errors :: DictOfStringSets
  warnings :: DictOfStringSets
  input_type_to_codes :: DictOfStringSets
  codes_requiring_input_type :: DictOfStringSets
  referenced_input_types :: "(string \<times> string set option) list"
  referenced_api_types :: "(string \<times> string set option) list"
  suppressions :: DictOfStringSets

text \<open>
  What a run reads and never changes: the entity database and its registry, the
  conventions, and what Python decides: the order in which a set is iterated, the text
  \<open>str()\<close> gives for a set, and which characters beyond ASCII are word characters.
\<close>

record env =
  db :: "(string \<times> member_elem list) list"
  reg :: registry
  conv :: conventions
  iter :: "string set \<Rightarrow> string list"
  str_set :: "string set \<Rightarrow> string"
  unicode_word :: "char \<Rightarrow> bool"

text \<open>
  \<open>str()\<close> of a set of strings that need no escaping, for a given order of iteration.
\<close>

definition py_str_set :: "(string set \<Rightarrow> string list) \<Rightarrow> string set \<Rightarrow> string" where
  "py_str_set order S =
     (if S = {} then ''set()''
      else ''{'' @ join '', '' (map (\<lambda>x. [CHR 0x27] @ x @ [CHR 0x27]) (order S)) @ ''}'')"

text \<open>The base class's \<open>add_extra_codes\<close> adds nothing.\<close>

definition add_extra_codes :: "DictOfStringSets \<Rightarrow> DictOfStringSets" where
  "add_extra_codes types_to_codes = types_to_codes"

text \<open>The base class's \<open>should_skip_checking_codes\<close>.\<close>

definition should_skip_checking_codes :: "string \<Rightarrow> bool" where
  "should_skip_checking_codes cmd_name = False"

text \<open>\<open>XMLChecker.__init__\<close>, with recursion depth \<open>n\<close> for the handle hierarchy.\<close>

definition XMLChecker_init ::
  "nat \<Rightarrow> env \<Rightarrow> (string \<times> str_or_strs) list \<Rightarrow> (string \<times> str_or_strs) list
   \<Rightarrow> (string \<times> str_or_strs) list \<Rightarrow> (string \<times> str_or_strs) list \<Rightarrow> checker res" where
  "XMLChecker_init n e manual_types_to_codes forward_only_types_to_codes
       reverse_only_types_to_codes suppressions_arg =
     (let reverse_codes = DictOfStringSets reverse_only_types_to_codes;
          forward_codes = DictOfStringSets forward_only_types_to_codes;
          forward_codes = fold (\<lambda>(k, v) acc. add acc k v) manual_types_to_codes forward_codes;
          reverse_codes = fold (\<lambda>(k, v) acc. add acc k v) manual_types_to_codes reverse_codes
      in res_bind (ancestors_dict n (reg e))
           (\<lambda>handle_ancestors.
              Return
                \<lparr>fail = False,
                 ctx = None,
                 errors = [],
                 warnings = [],
                 input_type_to_codes =
                   compute_type_to_codes handle_ancestors forward_codes add_extra_codes,
                 codes_requiring_input_type =
                   compute_codes_requiring_type (iter e) (descendants_of handle_ancestors)
                     reverse_codes,
                 referenced_input_types = [],
                 referenced_api_types = [],
                 suppressions = DictOfStringSets suppressions_arg\<rparr>))"

definition get_codes_for_command_and_type :: "checker \<Rightarrow> string \<Rightarrow> string \<Rightarrow> string set" where
  "get_codes_for_command_and_type s cmd_name type_name =
     get_or_empty (input_type_to_codes s) type_name"

subsection \<open>Recording messages\<close>

definition set_error_context :: "string \<Rightarrow> elem \<Rightarrow> checker \<Rightarrow> checker" where
  "set_error_context entity_arg elem_arg s =
     s\<lparr>ctx := Some \<lparr>entity = entity_arg, ctx_elem = elem_arg, ctx_name = e_name elem_arg,
                    entity_suppressions = map_of (suppressions s) (e_name elem_arg)\<rparr>\<rparr>"

text \<open>\<open>str(n)\<close> for a line number.\<close>

fun str_nat :: "nat \<Rightarrow> string" where
  "str_nat n =
     (if n < 10 then [''0123456789'' ! n]
      else str_nat (n div 10) @ [''0123456789'' ! (n mod 10)])"

text \<open>
  The keyword arguments of \<open>record_error\<close> and \<open>record_warning\<close>: \<open>filename\<close>, and
  \<open>elem\<close>, which may be left out, given as \<open>None\<close>, or given as an element.
\<close>

record kwargs =
  kw_filename :: "string option"
  kw_elem :: "elem option option"

definition no_kwargs :: kwargs where
  "no_kwargs = \<lparr>kw_filename = None, kw_elem = None\<rparr>"

definition prepend_sourceline_to_message :: "env \<Rightarrow> error_context \<Rightarrow> string \<Rightarrow> kwargs \<Rightarrow> string" where
  "prepend_sourceline_to_message e c message kw =
     (let fn = kw_filename kw;
          (fn, sourceline) =
            (if fn = None then
               (case (case kw_elem kw of None \<Rightarrow> Some (ctx_elem c) | Some given \<Rightarrow> given) of
                  None \<Rightarrow> (fn, None)
                | Some el \<Rightarrow>
                    (case filename (reg e) of
                       Some f \<Rightarrow> if f \<noteq> [] then (Some f, e_sourceline el) else (fn, e_sourceline el)
                     | None \<Rightarrow> (fn, e_sourceline el)))
             else (fn, None))
      in case (fn, sourceline) of
           (None, None) \<Rightarrow> message
         | (None, Some line) \<Rightarrow> ''Line '' @ str_nat line @ '': '' @ message
         | (Some f, None) \<Rightarrow> f @ '': '' @ message
         | (Some f, Some line) \<Rightarrow> f @ '':'' @ str_nat line @ '': '' @ message)"

text \<open>
  \<open>message in self.entity_suppressions\<close>, guarded by the truth value of the set.
\<close>

definition suppressed :: "error_context \<Rightarrow> string \<Rightarrow> bool" where
  "suppressed c message =
     (case entity_suppressions c of
        None \<Rightarrow> False
      | Some S \<Rightarrow> S \<noteq> {} \<and> message \<in> S)"

definition record_error :: "env \<Rightarrow> string list \<Rightarrow> kwargs \<Rightarrow> checker \<Rightarrow> checker res" where
  "record_error e args kw s =
     (let message = join '' '' args
      in case ctx s of
           None \<Rightarrow> Raise (AttributeError ''entity_suppressions'')
         | Some c \<Rightarrow>
             if suppressed c message then Return s
             else (let message = prepend_sourceline_to_message e c message kw
                   in Return (s\<lparr>fail := True,
                                errors := add_set (errors s) (entity c) {message}\<rparr>)))"

definition record_warning :: "env \<Rightarrow> string list \<Rightarrow> kwargs \<Rightarrow> checker \<Rightarrow> checker res" where
  "record_warning e args kw s =
     (let message = join '' '' args
      in case ctx s of
           None \<Rightarrow> Raise (AttributeError ''entity_suppressions'')
         | Some c \<Rightarrow>
             if suppressed c message then Return s
             else (let message = prepend_sourceline_to_message e c message kw
                   in Return (s\<lparr>warnings := add_set (warnings s) (entity c) {message}\<rparr>)))"

subsection \<open>The checks\<close>

text \<open>A \<open>for\<close> loop whose body changes the checker and may raise.\<close>

fun for_each :: "('a \<Rightarrow> 's \<Rightarrow> 's res) \<Rightarrow> 'a list \<Rightarrow> 's \<Rightarrow> 's res" where
  "for_each body [] s = Return s"
| "for_each body (x # xs) s = res_bind (body x s) (for_each body xs)"

definition check_param :: "env \<Rightarrow> member_elem \<Rightarrow> checker \<Rightarrow> checker res" where
  "check_param e param s =
     (let param_name = m_name param;
          externsyncs = m_externsync param
      in if externsyncs \<noteq> [] then
           for_each
             (\<lambda>entry s.
                if entirely_extern_sync entry then
                  (if length externsyncs > 1 then
                     record_error e
                       [''Comma-separated list in externsync attribute includes '' @ [CHR 0x27]
                          @ ''true'' @ [CHR 0x27] @ '' for'',
                        param_name] no_kwargs s
                   else Return s)
                else if es_member entry \<noteq> param_name then
                  record_error e
                    [''externsync attribute for'', param_name,
                     ''refers to some other member/parameter:'', es_member entry] no_kwargs s
                else Return s)
             externsyncs s
         else Return s)"

text \<open>\<open>findNamedElem\<close>: the first element with the given name, if any.\<close>

definition findNamedElem :: "member_elem list \<Rightarrow> string \<Rightarrow> member_elem option" where
  "findNamedElem elems n = find (\<lambda>el. m_name el = n) elems"

definition check_params :: "env \<Rightarrow> member_elem list \<Rightarrow> checker \<Rightarrow> checker res" where
  "check_params e params s =
     for_each
       (\<lambda>param s.
          res_bind (check_param e param s)
            (for_each
               (\<lambda>entry s.
                  case other_param_name entry of
                    None \<Rightarrow> Return s
                  | Some other \<Rightarrow>
                      if other = [] then Return s
                      else (case findNamedElem params other of
                              None \<Rightarrow>
                                record_error e
                                  [''References a non-existent parameter/member in the length of'',
                                   m_name param, '':'', other] no_kwargs s
                            | Some other_param \<Rightarrow> Return s))
               (m_len param)))
       params s"

definition check_type :: "env \<Rightarrow> string \<Rightarrow> type_info \<Rightarrow> string \<Rightarrow> checker \<Rightarrow> checker res" where
  "check_type e type_name info category s =
     (if category = ''struct'' then
        res_bind
          (if \<not> startswith type_name (type_prefix (conv e)) then
             record_error e [''Name does not start with'', type_prefix (conv e)] no_kwargs s
           else Return s)
          (check_params e (t_members info))
      else if category = ''bitmask'' then
        (if \<not> contains type_name ''Flags'' then
           record_error e
             [''Name of bitmask doesn't include '' @ [CHR 0x27] @ ''Flags'' @ [CHR 0x27]]
             no_kwargs s
         else Return s)
      else Return s)"

definition check_extension :: "env \<Rightarrow> string \<Rightarrow> ext_info \<Rightarrow> checker \<Rightarrow> checker res" where
  "check_extension e ext_name info s = Return s"

definition check_command_return_codes_basic ::
  "env \<Rightarrow> string \<Rightarrow> cmd_info \<Rightarrow> string set \<Rightarrow> string set \<Rightarrow> checker \<Rightarrow> checker res" where
  "check_command_return_codes_basic e cmd_name info successcodes errorcodes s =
     res_bind
       (for_each
          (\<lambda>code s.
             if \<not> contains code ''_ERROR_'' then
               record_error e [code, ''in errorcodes but doesn't contain _ERROR_''] no_kwargs s
             else Return s)
          (iter e errorcodes) s)
       (for_each
          (\<lambda>code s.
             if contains code ''_ERROR_'' then
               record_error e [code, ''in successcodes but contain _ERROR_''] no_kwargs s
             else Return s)
          (iter e successcodes))"

text \<open>
  \<open>self.referenced_input_types[name]\<close> and \<open>self.referenced_api_types[name]\<close>: the
  memoized closures, whose dictionaries the checker keeps from one command to the next.
\<close>

definition get_referenced_input ::
  "nat \<Rightarrow> env \<Rightarrow> string \<Rightarrow> checker \<Rightarrow> (string set option \<times> checker) res" where
  "get_referenced_input n e key s =
     res_bind (ReferencedTypes_getitem n (iter e) (db e) (is_input (unicode_word e) (conv e)) key
                 (referenced_input_types s))
       (\<lambda>(r, d). Return (r, s\<lparr>referenced_input_types := d\<rparr>))"

definition get_referenced_types ::
  "nat \<Rightarrow> env \<Rightarrow> string \<Rightarrow> checker \<Rightarrow> (string set option \<times> checker) res" where
  "get_referenced_types n e key s =
     res_bind (ReferencedTypes_getitem n (iter e) (db e) (is_api_type (conv e)) key
                 (referenced_api_types s))
       (\<lambda>(r, d). Return (r, s\<lparr>referenced_api_types := d\<rparr>))"

definition check_command_return_codes ::
  "nat \<Rightarrow> env \<Rightarrow> string \<Rightarrow> cmd_info \<Rightarrow> string set \<Rightarrow> string set \<Rightarrow> string set
   \<Rightarrow> checker \<Rightarrow> checker res" where
  "check_command_return_codes n e cmd_name info successcodes errorcodes codes s =
     res_bind (get_referenced_input n e cmd_name s)
       (\<lambda>(referenced_input, s).
     res_bind (get_referenced_types n e cmd_name s)
       (\<lambda>(referenced_types, s).
     case referenced_input of
       None \<Rightarrow> Raise (TypeError ''referenced_input'')
     | Some referenced_input \<Rightarrow>
     res_bind
       (for_each
          (\<lambda>referenced_type s.
             (let required_codes = get_codes_for_command_and_type s cmd_name referenced_type;
                  missing_codes = required_codes - codes
              in if missing_codes \<noteq> {} then
                   record_error e
                     [''Missing expected return code(s)'',
                      join '','' (iter e missing_codes),
                      ''implied because of input of type'',
                      referenced_type] no_kwargs s
                 else Return s))
          (iter e referenced_input) s)
       (for_each
          (\<lambda>code s.
             case map_of (codes_requiring_input_type s) code of
               None \<Rightarrow> Return s
             | Some required_types \<Rightarrow>
                 if required_types = {} then Return s
                 else (case referenced_types of
                         None \<Rightarrow> Raise (AttributeError ''intersection'')
                       | Some referenced_types \<Rightarrow>
                           if referenced_types \<inter> required_types = {} then
                             record_error e
                               [''Unexpected return code'', code,
                                ''- none of these types:'',
                                str_set e required_types,
                                ''found in the set of referenced types'',
                                str_set e referenced_types] no_kwargs s
                           else Return s))
          (iter e codes))))"

text \<open>An attribute that is absent or empty gives no codes; otherwise it is split at commas.\<close>

definition codes_of :: "string option \<Rightarrow> string list" where
  "codes_of attr =
     (case attr of
        None \<Rightarrow> []
      | Some a \<Rightarrow> if a \<noteq> [] then split_on CHR '','' a else [])"

definition check_command :: "nat \<Rightarrow> env \<Rightarrow> string \<Rightarrow> cmd_info \<Rightarrow> checker \<Rightarrow> checker res" where
  "check_command n e cmd_name info s =
     res_bind (check_params e (c_params info) s)
       (\<lambda>s.
          (let errorcodes = codes_of (c_errorcodes info);
               successcodes = codes_of (c_successcodes info)
           in if successcodes = [] \<and> errorcodes = [] then Return s
              else
                (let errorcodes_set = set errorcodes;
                     successcodes_set = set successcodes
                 in
                 res_bind
                   (if length errorcodes \<noteq> card errorcodes_set then
                      record_error e [''Contains a duplicate in errorcodes''] no_kwargs s
                    else Return s)
                   (\<lambda>s.
                 res_bind
                   (if length successcodes \<noteq> card successcodes_set then
                      record_error e [''Contains a duplicate in successcodes''] no_kwargs s
                    else Return s)
                   (\<lambda>s.
                 res_bind
                   (if successcodes_set \<inter> errorcodes_set \<noteq> {} then
                      record_error e [''Has errorcodes and successcodes that overlap''] no_kwargs s
                    else Return s)
                   (\<lambda>s.
                 res_bind
                   (check_command_return_codes_basic e cmd_name info successcodes_set
                      errorcodes_set s)
                   (\<lambda>s.
                 if \<not> should_skip_checking_codes cmd_name then
                   (let codes_set = successcodes_set \<union> errorcodes_set
                    in check_command_return_codes n e cmd_name info successcodes_set
                         errorcodes_set codes_set s)
                 else Return s)))))))"

subsection \<open>The run\<close>

text \<open>The lines \<open>check\<close> prints for one entity.\<close>

definition print_entity :: "env \<Rightarrow> checker \<Rightarrow> string \<Rightarrow> string list" where
  "print_entity e s entity_arg =
     [[], ''-------------------'', ''Messages for '' @ entity_arg, []]
     @ (case map_of (errors s) entity_arg of
          None \<Rightarrow> []
        | Some messages \<Rightarrow>
            if messages \<noteq> {} then map (\<lambda>m. ''Error: '' @ m) (iter e messages) else [])
     @ (case map_of (warnings s) entity_arg of
          None \<Rightarrow> []
        | Some messages \<Rightarrow>
            if messages \<noteq> {} then map (\<lambda>m. ''Warning: '' @ m) (iter e messages) else [])"

definition print_messages :: "env \<Rightarrow> checker \<Rightarrow> string list" where
  "print_messages e s =
     (let entities_with_messages = set (map fst (errors s)) \<union> set (map fst (warnings s))
      in fold (\<lambda>entity_arg out. out @ print_entity e s entity_arg)
           (iter e entities_with_messages) [])"

definition check_entities :: "nat \<Rightarrow> env \<Rightarrow> checker \<Rightarrow> checker res" where
  "check_entities n e s =
     res_bind
       (for_each
          (\<lambda>(cmd_name, info) s.
             check_command n e cmd_name info (set_error_context cmd_name (c_elem info) s))
          (cmddict (reg e)) s)
       (\<lambda>s.
     res_bind
       (for_each
          (\<lambda>(type_name, info) s.
             case t_category info of
               None \<Rightarrow> Return s
             | Some cat \<Rightarrow>
                 if cat = [] then Return s
                 else check_type e type_name info cat
                        (set_error_context type_name (t_elem info) s))
          (typedict (reg e)) s)
       (for_each
          (\<lambda>(ext_name, info) s.
             if x_supported info \<noteq> Some (xml_api_name (conv e)) then Return s
             else check_extension e ext_name info
                    (set_error_context ext_name (x_elem info) s))
          (extdict (reg e))))"

text \<open>\<open>XMLChecker.check\<close>: the checker after the run and the lines printed.\<close>

definition check :: "nat \<Rightarrow> env \<Rightarrow> checker \<Rightarrow> (checker \<times> string list) res" where
  "check n e s =
     res_bind (check_entities n e s) (\<lambda>s. Return (s, print_messages e s))"

text \<open>The example hierarchy: H3 with parent "H1,H2", H1 with parent "H0".\<close>

definition handle_elem :: "string \<Rightarrow> string option \<Rightarrow> string \<times> type_info" where
  "handle_elem name parent =
     (name, \<lparr>t_elem = \<lparr>e_name = name, e_sourceline = None\<rparr>, t_category = Some ''handle'',
             t_parent = parent, t_members = []\<rparr>)"

definition example_hierarchy :: registry where
  "example_hierarchy =
     \<lparr>cmddict = [],
      typedict = [handle_elem ''H3'' (Some ''H1,H2''), handle_elem ''H1'' (Some ''H0''),
                  handle_elem ''H0'' None, handle_elem ''H2'' None],
      extdict = [], filename = None\<rparr>"

text \<open>The example of a command with one input parameter of handle type Device.\<close>

definition device_param :: member_elem where
  "device_param = \<lparr>m_name = ''device'', m_text = ''Device device'', m_type = Some ''Device'',
                    m_externsync = [], m_len = []\<rparr>"

definition device_cmd :: cmd_info where
  "device_cmd = \<lparr>c_elem = \<lparr>e_name = ''Cmd'', e_sourceline = None\<rparr>, c_params = [device_param],
                  c_errorcodes = Some ''CODE_A'', c_successcodes = None\<rparr>"

definition device_env :: env where
  "device_env =
     \<lparr>db = [(''Cmd'', [device_param])],
      reg = \<lparr>cmddict = [(''Cmd'', device_cmd)],
             typedict = [handle_elem ''Instance'' None, handle_elem ''Device'' (Some ''Instance'')],
             extdict = [], filename = None\<rparr>,
      conv = \<lparr>type_prefix = [], xml_api_name = ''api''\<rparr>,
      iter = sorted_list_of_set,
      str_set = py_str_set sorted_list_of_set,
      unicode_word = (\<lambda>c. False)\<rparr>"

definition device_codes :: "(string \<times> str_or_strs) list" where
  "device_codes = [(''Device'', Strs [''CODE_A'']), (''Instance'', Strs [''CODE_B''])]"

section \<open>Invariants used in the proofs\<close>

text \<open>
  Every entry of the dictionary of ancestors is the handle's immediate parents followed
  by the entries of these parents, in order.
\<close>

definition memo_ok :: "(string \<times> type_info) list \<Rightarrow> (string \<times> string list) list \<Rightarrow> bool" where
  "memo_ok hts d =
     (\<forall>k v. map_of d k = Some v \<longrightarrow>
        k \<in> fst ` set hts \<and>
        (\<exists>as. list_all2 (\<lambda>p a. map_of d p = Some a) (parents_of hts k) as \<and>
              v = parents_of hts k @ concat as))"

text \<open>
  What one memoized lookup does to the dictionary: it keeps the invariant and the old
  entries, holds the result, and adds only handles of rank at most the key's.
\<close>

definition memo_step ::
  "(string \<times> type_info) list \<Rightarrow> (string \<Rightarrow> nat) \<Rightarrow> string \<Rightarrow> (string \<times> string list) list
   \<Rightarrow> string list \<Rightarrow> (string \<times> string list) list \<Rightarrow> bool" where
  "memo_step hts rank key d r d' =
     (memo_ok hts d' \<and> map_of d' key = Some r \<and>
      (\<forall>k v. map_of d k = Some v \<longrightarrow> map_of d' k = Some v) \<and>
      (\<forall>k. map_of d k = None \<longrightarrow> map_of d' k \<noteq> None \<longrightarrow> rank k \<le> rank key))"

text \<open>A rank for the example hierarchy: every parent ranks below its child.\<close>

definition example_rank :: "string \<Rightarrow> nat" where
  "example_rank h = (if h = ''H3'' then 2 else if h = ''H1'' then 1 else 0)"

text \<open>Two cyclic databases: a struct that refers to itself, and two that refer to each other.\<close>

definition member_of_type :: "string \<Rightarrow> string \<Rightarrow> member_elem" where
  "member_of_type n t =
     \<lparr>m_name = n, m_text = t @ '' '' @ n, m_type = Some t, m_externsync = [], m_len = []\<rparr>"

definition self_cycle_db :: "(string \<times> member_elem list) list" where
  "self_cycle_db = [(''A'', [member_of_type ''next'' ''A''])]"

definition two_cycle_db :: "(string \<times> member_elem list) list" where
  "two_cycle_db = [(''A'', [member_of_type ''b'' ''B'']), (''B'', [member_of_type ''a'' ''A''])]"

text \<open>The default predicate of \<open>ReferencedTypes\<close>.\<close>

definition always_true :: "member_elem \<Rightarrow> bool" where
  "always_true x = True"

text \<open>
  How many type names of the database are not yet keys of a closure dictionary; the
  entries of the dictionary name only types of the database; and what one memoized
  lookup of a closure does to the dictionary: it keeps the keys, leaves the same keys
  marked as being computed, and keeps the entries within the types of the database.
\<close>

definition pending :: "(string \<times> member_elem list) list \<Rightarrow> (string \<times> string set option) list \<Rightarrow> nat" where
  "pending dbase d = card (set (db_types dbase) - fst ` set d)"

definition vals_ok :: "(string \<times> member_elem list) list \<Rightarrow> (string \<times> string set option) list \<Rightarrow> bool" where
  "vals_ok dbase d = (\<forall>k S. map_of d k = Some (Some S) \<longrightarrow> S \<subseteq> set (db_types dbase))"

definition refs_step ::
  "(string \<times> member_elem list) list \<Rightarrow> (string \<times> string set option) list \<Rightarrow>
   (string \<times> string set option) list \<Rightarrow> bool" where
  "refs_step dbase d d' =
     (fst ` set d \<subseteq> fst ` set d' \<and>
      {k. map_of d' k = Some None} = {k. map_of d k = Some None} \<and>
      (vals_ok dbase d \<longrightarrow> vals_ok dbase d'))"

text \<open>
  The sentence of the specification on \<open>is_input\<close>, word for word: the member's declared
  type (the text of its \<open>type\<close> child) is within the namespace of the API, and the member
  is const-qualified or neither a pointer nor an array.
\<close>

definition declared_type_in_namespace :: "conventions \<Rightarrow> member_elem \<Rightarrow> bool" where
  "declared_type_in_namespace cv member =
     (case m_type member of None \<Rightarrow> False | Some t \<Rightarrow> contains t (type_prefix cv))"

definition is_input_spec :: "(char \<Rightarrow> bool) \<Rightarrow> conventions \<Rightarrow> member_elem \<Rightarrow> bool" where
  "is_input_spec uw cv member =
     (declared_type_in_namespace cv member \<and>
      (CONST_RE_search uw (m_text member) \<or>
       (\<not> contains (m_text member) ''*'' \<and> \<not> ARRAY_RE_search (m_text member))))"

text \<open>A parameter of type \<open>uint32_t\<close> whose name contains the prefix of the API.\<close>

definition count_param :: member_elem where
  "count_param = \<lparr>m_name = ''pVkCount'', m_text = ''uint32_t pVkCount'', m_type = Some ''uint32_t'',
                   m_externsync = [], m_len = []\<rparr>"

definition vk_conventions :: conventions where
  "vk_conventions = \<lparr>type_prefix = ''Vk'', xml_api_name = ''vulkan''\<rparr>"

text \<open>The body of the inner loop of \<open>compute_codes_requiring_type\<close>, for one code.\<close>

definition requiring_step :: "string \<Rightarrow> string set option \<Rightarrow> string \<Rightarrow> DictOfStringSets \<Rightarrow> DictOfStringSets" where
  "requiring_step in_type descendants code out =
     (let out = add_set out code {in_type}
      in case descendants of
           None \<Rightarrow> out
         | Some ds \<Rightarrow> if ds \<noteq> {} then add_set out code ds else out)"

text \<open>The checker that \<open>__init__\<close> builds for the Device example.\<close>

definition device_checker :: checker where
  "device_checker = \<lparr>fail = False, ctx = None, errors = [], warnings = [],
             input_type_to_codes = [(''Device'', {''CODE_A''}), (''Instance'', {''CODE_B''})],
             codes_requiring_input_type =
               [(''CODE_A'', {''Device''}), (''CODE_B'', {''Instance'', ''Device''})],
             referenced_input_types = [], referenced_api_types = [], suppressions = []\<rparr>"

text \<open>
  A run that left one error for the entity b and one warning for the entity a, and an
  environment in which sets are iterated from the greatest element to the least, one
  of the orders Python's hashing can give.
\<close>

definition two_entities :: checker where
  "two_entities = device_checker\<lparr>fail := True, errors := [(''b'', {''x''})],
                                 warnings := [(''a'', {''y''})]\<rparr>"

definition descending_env :: env where
  "descending_env = device_env\<lparr>iter := (\<lambda>S. rev (sorted_list_of_set S))\<rparr>"

text \<open>
  The state of the checker between calls: no key of a closure dictionary is marked as
  being computed; the failure flag is set exactly when some error is stored.
\<close>

definition sentinel_free :: "checker \<Rightarrow> bool" where
  "sentinel_free s =
     ((\<forall>k. map_of (referenced_input_types s) k \<noteq> Some None) \<and>
      (\<forall>k. map_of (referenced_api_types s) k \<noteq> Some None))"

definition fail_inv :: "checker \<Rightarrow> bool" where
  "fail_inv s = (fail s = (\<exists>x. get_or_empty (errors s) x \<noteq> {}))"

text \<open>
  What a check does to the checker within one error context: the context and the
  table of suppressions stay, the two properties above are kept, stored errors stay, and
  every new error belongs to the entity of the context and is the decorated form of a
  message that satisfies \<open>P\<close>.
\<close>

definition ok_step :: "env \<Rightarrow> (string \<Rightarrow> bool) \<Rightarrow> checker \<Rightarrow> checker \<Rightarrow> bool" where
  "ok_step e P s s' =
     (ctx s' = ctx s \<and>
      suppressions s' = suppressions s \<and>
      (sentinel_free s \<longrightarrow> sentinel_free s') \<and>
      (fail_inv s \<longrightarrow> fail_inv s') \<and>
      (\<forall>x. get_or_empty (errors s) x \<subseteq> get_or_empty (errors s') x) \<and>
      (\<forall>x m. m \<in> get_or_empty (errors s') x \<longrightarrow>
         m \<in> get_or_empty (errors s) x \<or>
         (\<exists>c msg. ctx s = Some c \<and> x = entity c \<and>
            m = prepend_sourceline_to_message e c msg no_kwargs \<and> P msg)))"

text \<open>The message of the overlap check, and the messages that are not it.\<close>

definition overlap_message :: string where
  "overlap_message = ''Has errorcodes and successcodes that overlap''"

definition not_overlap :: "string \<Rightarrow> bool" where
  "not_overlap m = (m \<noteq> overlap_message)"

text \<open>Every finite set is iterated over all its elements.\<close>

definition iter_ok :: "env \<Rightarrow> bool" where
  "iter_ok e = (\<forall>S. finite S \<longrightarrow> set (iter e S) = S)"

text \<open>
  What the overlap check of \<open>check_command\<close> does to the checker in the error context
  \<open>c\<close>: when the sets of codes overlap and the message is not suppressed, the failure
  flag is set and the decorated message is stored for the entity; otherwise nothing
  changes.
\<close>

definition overlap_step :: "env \<Rightarrow> error_context \<Rightarrow> bool \<Rightarrow> checker \<Rightarrow> checker \<Rightarrow> bool" where
  "overlap_step e c overlapping s s' =
     (if overlapping \<and> \<not> suppressed c overlap_message
      then s' = s\<lparr>fail := True,
                   errors := add_set (errors s) (entity c)
                     {prepend_sourceline_to_message e c overlap_message no_kwargs}\<rparr>
      else s' = s)"

text \<open>
  Two commands whose error and success codes overlap in one code, in a registry with no
  types; the second run suppresses the message of the overlap check for the command.
\<close>

definition overlap_cmd :: cmd_info where
  "overlap_cmd = \<lparr>c_elem = \<lparr>e_name = ''Cmd'', e_sourceline = None\<rparr>, c_params = [],
                   c_errorcodes = Some ''E_ERROR_X'', c_successcodes = Some ''E_ERROR_X''\<rparr>"

definition overlap_env :: env where
  "overlap_env =
     \<lparr>db = [],
      reg = \<lparr>cmddict = [(''Cmd'', overlap_cmd)], typedict = [], extdict = [], filename = None\<rparr>,
      conv = \<lparr>type_prefix = ''Vk'', xml_api_name = ''api''\<rparr>,
      iter = sorted_list_of_set,
      str_set = py_str_set sorted_list_of_set,
      unicode_word = (\<lambda>c. False)\<rparr>"

definition plain_checker :: checker where
  "plain_checker = \<lparr>fail = False, ctx = None, errors = [], warnings = [],
             input_type_to_codes = [], codes_requiring_input_type = [],
             referenced_input_types = [], referenced_api_types = [], suppressions = []\<rparr>"

definition suppressing_checker :: checker where
  "suppressing_checker = plain_checker\<lparr>suppressions := [(''Cmd'', {overlap_message})]\<rparr>"

text \<open>
  What the amended sentence on \<open>is_input\<close> says of the text of a member, in words of the
  text itself: it contains a given string; it has the word \<open>const\<close>, with no word
  character next to it on either side; it has a star; it has a pair of brackets that
  enclose at least one character, none of them a closing bracket; it has a pair of
  brackets at all.
\<close>

definition text_contains :: "string \<Rightarrow> string \<Rightarrow> bool" where
  "text_contains t p = (\<exists>pre post. t = pre @ p @ post)"

definition const_word :: "(char \<Rightarrow> bool) \<Rightarrow> string \<Rightarrow> bool" where
  "const_word uw t =
     (\<exists>pre post. t = pre @ ''const'' @ post \<and>
        (pre = [] \<or> \<not> is_word_char uw (last pre)) \<and>
        (post = [] \<or> \<not> is_word_char uw (hd post)))"

definition pointer_star :: "string \<Rightarrow> bool" where
  "pointer_star t = (CHR ''*'' \<in> set t)"

definition array_extent :: "string \<Rightarrow> bool" where
  "array_extent t =
     (\<exists>pre mid post. t = pre @ CHR ''['' # mid @ CHR '']'' # post \<and>
        mid \<noteq> [] \<and> CHR '']'' \<notin> set mid)"

definition array_brackets :: "string \<Rightarrow> bool" where
  "array_brackets t = (\<exists>pre mid post. t = pre @ CHR ''['' # mid @ CHR '']'' # post)"

text \<open>The same with a scan of the text, for brackets.\<close>

fun brackets_scan :: "string \<Rightarrow> bool" where
  "brackets_scan [] = False"
| "brackets_scan (x # xs) = ((x = CHR ''['' \<and> CHR '']'' \<in> set xs) \<or> brackets_scan xs)"

text \<open>Members for the cases of \<open>is_input\<close>.\<close>

definition text_member :: "string \<Rightarrow> string \<Rightarrow> string \<Rightarrow> member_elem" where
  "text_member t n full =
     \<lparr>m_name = n, m_text = full, m_type = Some t, m_externsync = [], m_len = []\<rparr>"

section \<open>The handle hierarchy\<close>


lemma map_of_dict_set: "map_of (dict_set d k v) = (map_of d)(k \<mapsto> v)"
  by (induction d) auto

lemma extend_ok:
  assumes "\<And>p d. p \<in> set ps \<Longrightarrow> memo_ok hts d \<Longrightarrow> \<exists>r d'. self p d = Return (r, d') \<and> memo_step hts rank p d r d'"
    and "memo_ok hts d"
  shows "\<exists>as d'. HandleParents_extend self ps acc d = Return (acc @ concat as, d') \<and>
           memo_ok hts d' \<and> list_all2 (\<lambda>p a. map_of d' p = Some a) ps as \<and>
           (\<forall>k v. map_of d k = Some v \<longrightarrow> map_of d' k = Some v) \<and>
           (\<forall>k. map_of d k = None \<longrightarrow> map_of d' k \<noteq> None \<longrightarrow> (\<exists>p \<in> set ps. rank k \<le> rank p))"
  using assms
proof (induction ps arbitrary: acc d)
  case Nil
  then show ?case by simp
next
  case (Cons p ps)
  from Cons.prems(1)[of p d] Cons.prems(2)
  obtain r d1 where s: "self p d = Return (r, d1)" and m: "memo_step hts rank p d r d1"
    by auto
  have ok1: "memo_ok hts d1" using m by (simp add: memo_step_def)
  have "\<exists>as d'. HandleParents_extend self ps (acc @ r) d1 = Return ((acc @ r) @ concat as, d') \<and>
           memo_ok hts d' \<and> list_all2 (\<lambda>p a. map_of d' p = Some a) ps as \<and>
           (\<forall>k v. map_of d1 k = Some v \<longrightarrow> map_of d' k = Some v) \<and>
           (\<forall>k. map_of d1 k = None \<longrightarrow> map_of d' k \<noteq> None \<longrightarrow> (\<exists>p \<in> set ps. rank k \<le> rank p))"
    by (rule Cons.IH) (use Cons.prems(1) ok1 in auto)
  then obtain as d' where
    e: "HandleParents_extend self ps (acc @ r) d1 = Return ((acc @ r) @ concat as, d')"
    and ok': "memo_ok hts d'"
    and l: "list_all2 (\<lambda>p a. map_of d' p = Some a) ps as"
    and ext: "\<forall>k v. map_of d1 k = Some v \<longrightarrow> map_of d' k = Some v"
    and new: "\<forall>k. map_of d1 k = None \<longrightarrow> map_of d' k \<noteq> None \<longrightarrow> (\<exists>p \<in> set ps. rank k \<le> rank p)"
    by blast
  have r: "map_of d' p = Some r" using m ext by (simp add: memo_step_def)
  have ext0: "\<forall>k v. map_of d k = Some v \<longrightarrow> map_of d' k = Some v"
    using m ext by (simp add: memo_step_def)
  have new0: "\<forall>k. map_of d k = None \<longrightarrow> map_of d' k \<noteq> None \<longrightarrow> (\<exists>q \<in> set (p # ps). rank k \<le> rank q)"
  proof (intro allI impI)
    fix k assume a: "map_of d k = None" "map_of d' k \<noteq> None"
    show "\<exists>q \<in> set (p # ps). rank k \<le> rank q"
    proof (cases "map_of d1 k")
      case None
      with new a show ?thesis by auto
    next
      case (Some v)
      with m a have "rank k \<le> rank p" by (auto simp: memo_step_def)
      then show ?thesis by simp
    qed
  qed
  have "HandleParents_extend self (p # ps) acc d = Return (acc @ concat (r # as), d')"
    using s e by simp
  moreover have "list_all2 (\<lambda>p a. map_of d' p = Some a) (p # ps) (r # as)"
    using r l by simp
  ultimately show ?case using ok' ext0 new0 by blast
qed

lemma getitem_ok:
  assumes ranked: "\<And>h p. h \<in> fst ` set hts \<Longrightarrow> p \<in> set (parents_of hts h) \<Longrightarrow> p \<in> fst ` set hts \<and> rank p < rank h"
  shows "key \<in> fst ` set hts \<Longrightarrow> rank key < n \<Longrightarrow> memo_ok hts d \<Longrightarrow>
         \<exists>r d'. HandleParents_getitem n hts key d = Return (r, d') \<and> memo_step hts rank key d r d'"
proof (induction n arbitrary: key d)
  case 0
  then show ?case by simp
next
  case (Suc n)
  show ?case
  proof (cases "map_of d key")
    case (Some ret)
    then show ?thesis using Suc.prems(3) by (simp add: memo_step_def)
  next
    case None
    let ?ps = "parents_of hts key"
    have self: "\<And>p d. p \<in> set ?ps \<Longrightarrow> memo_ok hts d \<Longrightarrow>
        \<exists>r d'. HandleParents_getitem n hts p d = Return (r, d') \<and> memo_step hts rank p d r d'"
    proof -
      fix p d assume p: "p \<in> set ?ps" and d: "memo_ok hts d"
      from ranked[OF Suc.prems(1) p] have "p \<in> fst ` set hts" "rank p < rank key" by auto
      with Suc.prems(2) have "rank p < n" by simp
      from Suc.IH[OF \<open>p \<in> fst ` set hts\<close> this d] show
        "\<exists>r d'. HandleParents_getitem n hts p d = Return (r, d') \<and> memo_step hts rank p d r d'" .
    qed
    from extend_ok[where ps="?ps" and hts=hts and self="HandleParents_getitem n hts" and rank=rank and d=d and acc="?ps", OF self Suc.prems(3)]
    obtain as d' where
      e: "HandleParents_extend (HandleParents_getitem n hts) ?ps ?ps d = Return (?ps @ concat as, d')"
      and ok': "memo_ok hts d'"
      and l: "list_all2 (\<lambda>p a. map_of d' p = Some a) ?ps as"
      and ext: "\<forall>k v. map_of d k = Some v \<longrightarrow> map_of d' k = Some v"
      and new: "\<forall>k. map_of d k = None \<longrightarrow> map_of d' k \<noteq> None \<longrightarrow> (\<exists>p \<in> set ?ps. rank k \<le> rank p)"
      by blast
    have c: "HandleParents_compute (HandleParents_getitem n hts) hts key d = Return (?ps @ concat as, d')"
    proof (cases "map_of hts key")
      case None
      with Suc.prems(1) show ?thesis by (auto simp: map_of_eq_None_iff)
    next
      case (Some info)
      show ?thesis
      proof (cases "t_parent info")
        case None
        with Some have "?ps = []" by (simp add: parents_of_def)
        with e l Some None show ?thesis by (simp add: HandleParents_compute_def)
      next
        case (Some p)
        with \<open>map_of hts key = Some info\<close> e show ?thesis
          by (simp add: HandleParents_compute_def parents_of_def)
      qed
    qed
    have fresh: "map_of d' key = None"
    proof (rule ccontr)
      assume "map_of d' key \<noteq> None"
      with new None obtain p where "p \<in> set ?ps" "rank key \<le> rank p" by blast
      with ranked[OF Suc.prems(1), of p] show False by simp
    qed
    let ?r = "?ps @ concat as"
    let ?d = "dict_set d' key ?r"
    have mono: "\<forall>k v. map_of d' k = Some v \<longrightarrow> map_of ?d k = Some v"
      using fresh by (auto simp: map_of_dict_set)
    have "memo_ok hts ?d"
      unfolding memo_ok_def
    proof (intro allI impI)
      fix k v assume kv: "map_of ?d k = Some v"
      show "k \<in> fst ` set hts \<and>
        (\<exists>as. list_all2 (\<lambda>p a. map_of ?d p = Some a) (parents_of hts k) as \<and> v = parents_of hts k @ concat as)"
      proof (cases "k = key")
        case True
        with kv have "v = ?r" by (simp add: map_of_dict_set)
        moreover have "list_all2 (\<lambda>p a. map_of ?d p = Some a) ?ps as"
          using l mono by (auto elim!: list_all2_mono)
        ultimately show ?thesis using True Suc.prems(1) by blast
      next
        case False
        with kv have "map_of d' k = Some v" by (simp add: map_of_dict_set)
        with ok' obtain bs where "k \<in> fst ` set hts"
          "list_all2 (\<lambda>p a. map_of d' p = Some a) (parents_of hts k) bs" "v = parents_of hts k @ concat bs"
          unfolding memo_ok_def by blast
        moreover from this(2) have "list_all2 (\<lambda>p a. map_of ?d p = Some a) (parents_of hts k) bs"
          using mono by (auto elim!: list_all2_mono)
        ultimately show ?thesis by blast
      qed
    qed
    moreover have "map_of ?d key = Some ?r" by (simp add: map_of_dict_set)
    moreover have "\<forall>k v. map_of d k = Some v \<longrightarrow> map_of ?d k = Some v"
      using ext mono by blast
    moreover have "\<forall>k. map_of d k = None \<longrightarrow> map_of ?d k \<noteq> None \<longrightarrow> rank k \<le> rank key"
    proof (intro allI impI)
      fix k assume a: "map_of d k = None" "map_of ?d k \<noteq> None"
      show "rank k \<le> rank key"
      proof (cases "k = key")
        case False
        with a have "map_of d' k \<noteq> None" by (simp add: map_of_dict_set)
        with new a obtain p where "p \<in> set ?ps" "rank k \<le> rank p" by blast
        with ranked[OF Suc.prems(1), of p] show ?thesis by simp
      qed simp
    qed
    ultimately have "memo_step hts rank key d ?r ?d" by (simp add: memo_step_def)
    moreover have "HandleParents_getitem (Suc n) hts key d = Return (?r, ?d)"
      using None c by simp
    ultimately show ?thesis by blast
  qed
qed

lemma populate_ok:
  assumes "\<And>p d. p \<in> set ks \<Longrightarrow> memo_ok hts d \<Longrightarrow> \<exists>r d'. self p d = Return (r, d') \<and> memo_step hts rank p d r d'"
    and "memo_ok hts d"
  shows "\<exists>d'. HandleParents_populate self ks d = Return d' \<and> memo_ok hts d' \<and>
           (\<forall>k v. map_of d k = Some v \<longrightarrow> map_of d' k = Some v) \<and>
           (\<forall>k \<in> set ks. map_of d' k \<noteq> None)"
  using assms
proof (induction ks arbitrary: d)
  case Nil
  then show ?case by simp
next
  case (Cons p ks)
  from Cons.prems(1)[of p d] Cons.prems(2)
  obtain r d1 where s: "self p d = Return (r, d1)" and m: "memo_step hts rank p d r d1"
    by auto
  have ok1: "memo_ok hts d1" using m by (simp add: memo_step_def)
  have "\<exists>d'. HandleParents_populate self ks d1 = Return d' \<and> memo_ok hts d' \<and>
           (\<forall>k v. map_of d1 k = Some v \<longrightarrow> map_of d' k = Some v) \<and>
           (\<forall>k \<in> set ks. map_of d' k \<noteq> None)"
    by (rule Cons.IH) (use Cons.prems(1) ok1 in auto)
  then obtain d' where p: "HandleParents_populate self ks d1 = Return d'" "memo_ok hts d'"
    "\<forall>k v. map_of d1 k = Some v \<longrightarrow> map_of d' k = Some v"
    "\<forall>k \<in> set ks. map_of d' k \<noteq> None" by blast
  have "map_of d' p = Some r" using m p(3) by (simp add: memo_step_def)
  moreover have "\<forall>k v. map_of d k = Some v \<longrightarrow> map_of d' k = Some v"
    using m p(3) by (simp add: memo_step_def)
  moreover have "HandleParents_populate self (p # ks) d = Return d'"
    using s p(1) by simp
  ultimately show ?case using p(2) p(4) by auto
qed

lemma HandleParents_ok:
  assumes ranked: "\<And>h p. h \<in> fst ` set hts \<Longrightarrow> p \<in> set (parents_of hts h) \<Longrightarrow> p \<in> fst ` set hts \<and> rank p < rank h"
    and depth: "\<And>h. h \<in> fst ` set hts \<Longrightarrow> rank h < n"
  shows "\<exists>anc. HandleParents n hts = Return anc \<and> memo_ok hts anc \<and> fst ` set anc = fst ` set hts"
proof -
  have self: "\<And>p d. p \<in> set (map fst hts) \<Longrightarrow> memo_ok hts d \<Longrightarrow>
     \<exists>r d'. HandleParents_getitem n hts p d = Return (r, d') \<and> memo_step hts rank p d r d'"
    using getitem_ok[where hts=hts and rank=rank and n=n, OF ranked] depth by simp
  have "memo_ok hts []" by (simp add: memo_ok_def)
  from populate_ok[where ks="map fst hts" and hts=hts and self="HandleParents_getitem n hts" and rank=rank and d="[]", OF self this]
  obtain anc where a: "HandleParents n hts = Return anc" "memo_ok hts anc"
    "\<forall>k \<in> set (map fst hts). map_of anc k \<noteq> None"
    unfolding HandleParents_def by blast
  have "fst ` set anc \<subseteq> fst ` set hts"
  proof
    fix k assume "k \<in> fst ` set anc"
    then obtain v where "map_of anc k = Some v"
      by (metis map_of_eq_None_iff not_Some_eq)
    with a(2) show "k \<in> fst ` set hts" unfolding memo_ok_def by blast
  qed
  moreover have "fst ` set hts \<subseteq> fst ` set anc"
    using a(3) by (auto simp: map_of_eq_None_iff)
  ultimately show ?thesis using a by blast
qed


text \<open>
  C3: when the parent declarations are well-founded (every declared parent is a handle
  type of lower rank), the ancestors of every handle type are its immediate parents in
  declaration order followed by the ancestors of each of them, concatenated with no
  deduplication; a handle with no parent has none; and in the example hierarchy the
  ancestors of H3 are H1, H2, H0.
\<close>

theorem ancestors_parents_then_recursive:
  assumes ranked: "\<And>h p. h \<in> fst ` set (handle_types registry) \<Longrightarrow>
             p \<in> set (parents_of (handle_types registry) h) \<Longrightarrow>
             p \<in> fst ` set (handle_types registry) \<and> rank p < rank h"
    and depth: "\<And>h. h \<in> fst ` set (handle_types registry) \<Longrightarrow> rank h < n"
  shows "\<exists>anc. ancestors_dict n registry = Return anc \<and>
           fst ` set anc = fst ` set (handle_types registry) \<and>
           (\<forall>h. h \<in> fst ` set (handle_types registry) \<longrightarrow>
              (\<exists>as. list_all2 (\<lambda>p a. map_of anc p = Some a) (parents_of (handle_types registry) h) as \<and>
                    map_of anc h = Some (parents_of (handle_types registry) h @ concat as)) \<and>
              (parents_of (handle_types registry) h = [] \<longrightarrow> map_of anc h = Some [])) \<and>
           res_bind (ancestors_dict 3 example_hierarchy) (\<lambda>a. Return (map_of a ''H3''))
             = Return (Some [''H1'', ''H2'', ''H0''])"
proof -
  let ?hts = "handle_types registry"
  from HandleParents_ok[where hts="?hts" and rank=rank and n=n, OF ranked depth]
  obtain anc where a: "HandleParents n ?hts = Return anc" "memo_ok ?hts anc"
    "fst ` set anc = fst ` set ?hts" by blast
  have each: "\<exists>as. list_all2 (\<lambda>p a. map_of anc p = Some a) (parents_of ?hts h) as \<and>
                    map_of anc h = Some (parents_of ?hts h @ concat as)"
    if h: "h \<in> fst ` set ?hts" for h
  proof -
    from h a(3) obtain v where "map_of anc h = Some v"
      by (metis map_of_eq_None_iff not_Some_eq)
    with a(2) show ?thesis unfolding memo_ok_def by blast
  qed
  have none: "map_of anc h = Some []"
    if h: "h \<in> fst ` set ?hts" and e: "parents_of ?hts h = []" for h
    using each[OF h] e by auto
  have ex: "res_bind (ancestors_dict 3 example_hierarchy) (\<lambda>a. Return (map_of a ''H3''))
             = Return (Some [''H1'', ''H2'', ''H0''])"
    by (simp add: ancestors_dict_def HandleParents_def handle_types_def example_hierarchy_def
        handle_elem_def HandleParents_compute_def numeral_3_eq_3)
  show ?thesis
    using a(1) a(3) each none ex unfolding ancestors_dict_def by blast
qed

lemma example_hierarchy_handles:
  "handle_types example_hierarchy =
     [handle_elem ''H3'' (Some ''H1,H2''), handle_elem ''H1'' (Some ''H0''),
      handle_elem ''H0'' None, handle_elem ''H2'' None]"
  by (simp add: handle_types_def example_hierarchy_def handle_elem_def)

lemma example_hierarchy_ranked:
  "h \<in> fst ` set (handle_types example_hierarchy) \<Longrightarrow>
   p \<in> set (parents_of (handle_types example_hierarchy) h) \<Longrightarrow>
   p \<in> fst ` set (handle_types example_hierarchy) \<and> example_rank p < example_rank h"
  unfolding example_hierarchy_handles
  by (auto simp: handle_elem_def parents_of_def example_rank_def)

lemma example_hierarchy_depth:
  "h \<in> fst ` set (handle_types example_hierarchy) \<Longrightarrow> example_rank h < 3"
  by (simp add: example_rank_def)

theorem ancestors_parents_then_recursive_witness:
  "\<exists>anc. ancestors_dict 3 example_hierarchy = Return anc \<and>
         fst ` set anc = {''H0'', ''H1'', ''H2'', ''H3''} \<and>
         map_of anc ''H2'' = Some []"
proof -
  from ancestors_parents_then_recursive[where registry=example_hierarchy and rank=example_rank and n=3,
      OF example_hierarchy_ranked example_hierarchy_depth]
  obtain anc where a: "ancestors_dict 3 example_hierarchy = Return anc"
    "fst ` set anc = fst ` set (handle_types example_hierarchy)"
    "\<forall>h. h \<in> fst ` set (handle_types example_hierarchy) \<longrightarrow>
        (\<exists>as. list_all2 (\<lambda>p a. map_of anc p = Some a) (parents_of (handle_types example_hierarchy) h) as \<and>
              map_of anc h = Some (parents_of (handle_types example_hierarchy) h @ concat as)) \<and>
        (parents_of (handle_types example_hierarchy) h = [] \<longrightarrow> map_of anc h = Some [])"
    by blast
  have "fst ` set anc = {''H0'', ''H1'', ''H2'', ''H3''}"
    using a(2) unfolding example_hierarchy_handles by (auto simp: handle_elem_def)
  moreover have "map_of anc ''H2'' = Some []"
  proof -
    have "''H2'' \<in> fst ` set (handle_types example_hierarchy)"
      unfolding example_hierarchy_handles by (simp add: handle_elem_def)
    moreover have "parents_of (handle_types example_hierarchy) ''H2'' = []"
      unfolding example_hierarchy_handles by (simp add: handle_elem_def parents_of_def)
    ultimately show ?thesis using a(3) by blast
  qed
  ultimately show ?thesis using a(1) by blast
qed

lemma map_of_tabulate:
  "map_of (map (\<lambda>k. (k, f k)) ks) a = (if a \<in> set ks then Some (f a) else None)"
  by (induction ks) auto

lemma descendants_of_lookup:
  "a \<in> fst ` set anc \<Longrightarrow> map_of (descendants_of anc) a = Some (get_descendants anc a)"
  unfolding descendants_of_def map_of_tabulate by simp

lemma get_descendants_iff:
  "b \<in> get_descendants anc a \<longleftrightarrow> (\<exists>A. map_of anc b = Some A \<and> a \<in> set A)"
  by (auto simp: get_descendants_def map_of_eq_None_iff split: option.splits
           dest: map_of_SomeD intro: rev_image_eqI)

text \<open>
  C4: when the parent declarations are well-founded, the dictionaries of ancestors and of
  descendants are both computed, and for all handle types a and b of the registry, b is
  among the descendants of a exactly when a occurs among the ancestors of b.
\<close>

theorem descendants_inverse_of_ancestors:
  assumes ranked: "\<And>h p. h \<in> fst ` set (handle_types registry) \<Longrightarrow>
             p \<in> set (parents_of (handle_types registry) h) \<Longrightarrow>
             p \<in> fst ` set (handle_types registry) \<and> rank p < rank h"
    and depth: "\<And>h. h \<in> fst ` set (handle_types registry) \<Longrightarrow> rank h < n"
  shows "\<exists>anc desc. ancestors_dict n registry = Return anc \<and>
           descendants_dict n registry = Return desc \<and>
           (\<forall>a b. a \<in> fst ` set (handle_types registry) \<longrightarrow>
                  b \<in> fst ` set (handle_types registry) \<longrightarrow>
                  (\<exists>D A. map_of desc a = Some D \<and> map_of anc b = Some A \<and>
                         (b \<in> D \<longleftrightarrow> a \<in> set A)))"
proof -
  let ?hts = "handle_types registry"
  from HandleParents_ok[where hts="?hts" and rank=rank and n=n, OF ranked depth]
  obtain anc where a: "HandleParents n ?hts = Return anc"
    "fst ` set anc = fst ` set ?hts" by blast
  have anc: "ancestors_dict n registry = Return anc"
    using a(1) by (simp add: ancestors_dict_def)
  then have desc: "descendants_dict n registry = Return (descendants_of anc)"
    by (simp add: descendants_dict_def)
  have "\<exists>D A. map_of (descendants_of anc) x = Some D \<and> map_of anc y = Some A \<and>
              (y \<in> D \<longleftrightarrow> x \<in> set A)"
    if x: "x \<in> fst ` set ?hts" and y: "y \<in> fst ` set ?hts" for x y
  proof -
    from y a(2) obtain A where A: "map_of anc y = Some A"
      by (metis map_of_eq_None_iff not_Some_eq)
    have "map_of (descendants_of anc) x = Some (get_descendants anc x)"
      using x a(2) by (simp add: descendants_of_lookup)
    moreover have "y \<in> get_descendants anc x \<longleftrightarrow> x \<in> set A"
      using A by (simp add: get_descendants_iff)
    ultimately show ?thesis using A by blast
  qed
  with anc desc show ?thesis by blast
qed

theorem descendants_inverse_of_ancestors_witness:
  "\<exists>anc desc D A. ancestors_dict 3 example_hierarchy = Return anc \<and>
     descendants_dict 3 example_hierarchy = Return desc \<and>
     map_of desc ''H0'' = Some D \<and> map_of anc ''H3'' = Some A \<and>
     (''H3'' \<in> D) = (''H0'' \<in> set A)"
proof -
  from descendants_inverse_of_ancestors[where registry=example_hierarchy
      and rank=example_rank and n=3, OF example_hierarchy_ranked example_hierarchy_depth]
  obtain anc desc where a: "ancestors_dict 3 example_hierarchy = Return anc"
    "descendants_dict 3 example_hierarchy = Return desc"
    "\<forall>a b. a \<in> fst ` set (handle_types example_hierarchy) \<longrightarrow>
           b \<in> fst ` set (handle_types example_hierarchy) \<longrightarrow>
           (\<exists>D A. map_of desc a = Some D \<and> map_of anc b = Some A \<and> (b \<in> D \<longleftrightarrow> a \<in> set A))"
    by blast
  have "''H0'' \<in> fst ` set (handle_types example_hierarchy)"
    and "''H3'' \<in> fst ` set (handle_types example_hierarchy)"
    unfolding example_hierarchy_handles by (simp_all add: handle_elem_def)
  with a(3) obtain D A where "map_of desc ''H0'' = Some D" "map_of anc ''H3'' = Some A"
    "(''H3'' \<in> D) = (''H0'' \<in> set A)" by blast
  with a(1,2) show ?thesis by blast
qed

section \<open>The closure of referenced types\<close>

lemma keys_dict_set: "fst ` set (dict_set d k v) = insert k (fst ` set d)"
  by (simp add: dom_map_of_conv_image_fst[symmetric] map_of_dict_set)

lemma pending_mono: "fst ` set d \<subseteq> fst ` set d' \<Longrightarrow> pending dbase d' \<le> pending dbase d"
  unfolding pending_def by (rule card_mono) auto

lemma pending_bound: "pending dbase d \<le> length (db_types dbase)"
proof -
  have "pending dbase d \<le> card (set (db_types dbase))"
    unfolding pending_def by (rule card_mono) auto
  also have "\<dots> \<le> length (db_types dbase)" by (rule card_length)
  finally show ?thesis .
qed

lemma pending_fresh:
  assumes "t \<in> set (db_types dbase)" and "t \<notin> fst ` set d"
  shows "pending dbase (dict_set d t v) < pending dbase d"
proof -
  have "set (db_types dbase) - fst ` set (dict_set d t v)
        = (set (db_types dbase) - fst ` set d) - {t}"
    by (auto simp: keys_dict_set)
  moreover have "t \<in> set (db_types dbase) - fst ` set d" using assms by simp
  moreover have "card ((set (db_types dbase) - fst ` set d) - {t}) < card (set (db_types dbase) - fst ` set d)"
    by (rule card_Diff1_less) (use assms in auto)
  ultimately show ?thesis
    unfolding pending_def by simp
qed

lemma direct_types_subset:
  "set (direct_types predicate members) \<subseteq> set (direct_types (\<lambda>member. True) members)"
  by (auto simp: direct_types_def split: option.splits if_splits)

lemma direct_types_db:
  assumes "getMemberElems dbase key = Some members"
  shows "set (direct_types predicate members) \<subseteq> set (db_types dbase)"
proof -
  from assms have "(key, members) \<in> set dbase"
    by (auto simp: getMemberElems_def dest: map_of_SomeD)
  then have "set (direct_types (\<lambda>member. True) members) \<subseteq> set (db_types dbase)"
    by (auto simp: db_types_def)
  with direct_types_subset show ?thesis by blast
qed

lemma refs_step_refl: "refs_step dbase d d"
  by (simp add: refs_step_def)

lemma refs_step_trans: "refs_step dbase d d1 \<Longrightarrow> refs_step dbase d1 d2 \<Longrightarrow> refs_step dbase d d2"
  by (auto simp: refs_step_def)

lemma update_returns:
  assumes "\<And>t d. t \<in> set ts \<Longrightarrow> pending dbase d \<le> m \<Longrightarrow>
             \<exists>r d'. self t d = Return (r, d') \<and> refs_step dbase d d' \<and>
                    (vals_ok dbase d \<longrightarrow> (\<forall>S. r = Some S \<longrightarrow> S \<subseteq> set (db_types dbase)))"
    and "pending dbase d \<le> m"
  shows "\<exists>S d'. ReferencedTypes_update self ts acc d = Return (S, d') \<and> refs_step dbase d d' \<and>
           (vals_ok dbase d \<longrightarrow> acc \<subseteq> set (db_types dbase) \<longrightarrow> S \<subseteq> set (db_types dbase))"
  using assms
proof (induction ts arbitrary: acc d)
  case Nil
  then show ?case by (simp add: refs_step_refl)
next
  case (Cons t ts)
  from Cons.prems(1)[of t d] Cons.prems(2)
  obtain r d1 where s: "self t d = Return (r, d1)" and st: "refs_step dbase d d1"
    and v: "vals_ok dbase d \<longrightarrow> (\<forall>S. r = Some S \<longrightarrow> S \<subseteq> set (db_types dbase))"
    by auto
  let ?acc = "case r of None \<Rightarrow> acc | Some x \<Rightarrow> acc \<union> x"
  have p1: "pending dbase d1 \<le> m"
    using st Cons.prems(2) pending_mono[of d d1 dbase] by (simp add: refs_step_def)
  have "\<exists>S d'. ReferencedTypes_update self ts ?acc d1 = Return (S, d') \<and> refs_step dbase d1 d' \<and>
           (vals_ok dbase d1 \<longrightarrow> ?acc \<subseteq> set (db_types dbase) \<longrightarrow> S \<subseteq> set (db_types dbase))"
    by (rule Cons.IH) (use Cons.prems(1) p1 in auto)
  then obtain S d' where u: "ReferencedTypes_update self ts ?acc d1 = Return (S, d')"
    and st': "refs_step dbase d1 d'"
    and v': "vals_ok dbase d1 \<longrightarrow> ?acc \<subseteq> set (db_types dbase) \<longrightarrow> S \<subseteq> set (db_types dbase)"
    by blast
  have "ReferencedTypes_update self (t # ts) acc d = Return (S, d')"
    using s u by simp
  moreover have "refs_step dbase d d'" using st st' by (rule refs_step_trans)
  moreover have "vals_ok dbase d \<longrightarrow> acc \<subseteq> set (db_types dbase) \<longrightarrow> S \<subseteq> set (db_types dbase)"
  proof (intro impI)
    assume a: "vals_ok dbase d" "acc \<subseteq> set (db_types dbase)"
    then have "vals_ok dbase d1" using st by (simp add: refs_step_def)
    moreover have "?acc \<subseteq> set (db_types dbase)"
      using a v by (cases r) auto
    ultimately show "S \<subseteq> set (db_types dbase)" using v' by blast
  qed
  ultimately show ?case by blast
qed

lemma getitem_returns:
  assumes iter_ok: "\<forall>S. finite S \<longrightarrow> set (order S) = S"
  shows "key \<in> fst ` set d \<or> pending dbase (dict_set d key None) < n \<Longrightarrow>
         \<exists>r d'. ReferencedTypes_getitem (Suc n) order dbase predicate key d = Return (r, d') \<and>
           refs_step dbase d d' \<and>
           (vals_ok dbase d \<longrightarrow> (\<forall>S. r = Some S \<longrightarrow> S \<subseteq> set (db_types dbase))) \<and>
           (map_of d key \<noteq> Some None \<longrightarrow> r \<noteq> None)"
proof (induction n arbitrary: key d)
  case 0
  then have "key \<in> fst ` set d" by simp
  then obtain v where "map_of d key = Some v"
    by (metis map_of_eq_None_iff not_Some_eq)
  then show ?case by (auto simp: refs_step_refl vals_ok_def)
next
  case (Suc m)
  show ?case
  proof (cases "map_of d key")
    case (Some v)
    then show ?thesis by (auto simp: refs_step_refl vals_ok_def)
  next
    case None
    then have fresh: "key \<notin> fst ` set d" by (simp add: map_of_eq_None_iff)
    let ?marked = "dict_set d key None"
    have p0: "pending dbase ?marked \<le> m" using Suc.prems fresh by simp
    have self: "\<exists>r d'. ReferencedTypes_getitem (Suc m) order dbase predicate t dx = Return (r, d') \<and>
              refs_step dbase dx d' \<and>
              (vals_ok dbase dx \<longrightarrow> (\<forall>S. r = Some S \<longrightarrow> S \<subseteq> set (db_types dbase)))"
      if t: "t \<in> set (db_types dbase)" and p: "pending dbase dx \<le> m" for t dx
    proof -
      have "t \<in> fst ` set dx \<or> pending dbase (dict_set dx t None) < m"
      proof (cases "t \<in> fst ` set dx")
        case False
        with pending_fresh[OF t, of dx None] p show ?thesis by simp
      qed simp
      from Suc.IH[OF this] show ?thesis by blast
    qed
    have "\<exists>S d'. ReferencedTypes_compute (ReferencedTypes_getitem (Suc m) order dbase predicate)
                    order dbase predicate key ?marked = Return (S, d') \<and> refs_step dbase ?marked d' \<and>
             (vals_ok dbase ?marked \<longrightarrow> S \<subseteq> set (db_types dbase))"
    proof (cases "getMemberElems dbase key")
      case None
      then show ?thesis by (simp add: ReferencedTypes_compute_def refs_step_refl)
    next
      case (Some members)
      show ?thesis
      proof (cases "members = []")
        case True
        with Some show ?thesis by (simp add: ReferencedTypes_compute_def refs_step_refl)
      next
        case False
        let ?types = "set (direct_types predicate members)"
        have sub: "?types \<subseteq> set (db_types dbase)" using Some by (rule direct_types_db)
        have it: "set (order ?types) = ?types" using iter_ok by simp
        have "\<exists>S d'. ReferencedTypes_update (ReferencedTypes_getitem (Suc m) order dbase predicate)
                 (order ?types) ?types ?marked = Return (S, d') \<and> refs_step dbase ?marked d' \<and>
               (vals_ok dbase ?marked \<longrightarrow> ?types \<subseteq> set (db_types dbase) \<longrightarrow> S \<subseteq> set (db_types dbase))"
          by (rule update_returns[where m=m]) (use self it sub p0 in auto)
        with Some False sub show ?thesis
          by (simp add: ReferencedTypes_compute_def Let_def)
      qed
    qed
    then obtain S d' where c: "ReferencedTypes_compute (ReferencedTypes_getitem (Suc m) order dbase predicate)
                    order dbase predicate key ?marked = Return (S, d')"
      and st: "refs_step dbase ?marked d'"
      and v: "vals_ok dbase ?marked \<longrightarrow> S \<subseteq> set (db_types dbase)" by blast
    let ?done = "dict_set d' key (Some S)"
    have g: "ReferencedTypes_getitem (Suc (Suc m)) order dbase predicate key d = Return (Some S, ?done)"
      using None c by simp
    have v0: "vals_ok dbase d \<Longrightarrow> vals_ok dbase ?marked"
      unfolding vals_ok_def map_of_dict_set by (simp split: if_splits)
    have keys: "fst ` set d \<subseteq> fst ` set ?done"
      using st by (auto simp: refs_step_def keys_dict_set)
    have marks: "{k. map_of ?done k = Some None} = {k. map_of d k = Some None}"
    proof (rule set_eqI)
      fix k
      have e: "(map_of d' k = Some None) = (map_of ?marked k = Some None)"
        using st unfolding refs_step_def by blast
      show "k \<in> {k. map_of ?done k = Some None} \<longleftrightarrow> k \<in> {k. map_of d k = Some None}"
      proof (cases "k = key")
        case True
        with None show ?thesis by (simp add: map_of_dict_set)
      next
        case False
        then have "(map_of ?done k = Some None) = (map_of d' k = Some None)"
          by (simp add: map_of_dict_set)
        also have "\<dots> = (map_of d k = Some None)"
          unfolding e using False by (simp add: map_of_dict_set)
        finally show ?thesis by simp
      qed
    qed
    have vals: "vals_ok dbase ?done \<and> S \<subseteq> set (db_types dbase)" if a: "vals_ok dbase d"
    proof -
      have d': "vals_ok dbase d'" using v0[OF a] st by (simp add: refs_step_def)
      have S: "S \<subseteq> set (db_types dbase)" using v0[OF a] v by simp
      have "vals_ok dbase ?done"
        unfolding vals_ok_def map_of_dict_set
      proof (intro allI impI)
        fix k T assume "((map_of d')(key \<mapsto> Some S)) k = Some (Some T)"
        then have "T = S \<or> map_of d' k = Some (Some T)" by (auto split: if_splits)
        then show "T \<subseteq> set (db_types dbase)" using S d' unfolding vals_ok_def by blast
      qed
      with S show ?thesis by simp
    qed
    have "refs_step dbase d ?done" using keys marks vals by (simp add: refs_step_def)
    moreover have "vals_ok dbase d \<longrightarrow> (\<forall>T. Some S = Some T \<longrightarrow> T \<subseteq> set (db_types dbase))"
      using vals by simp
    ultimately show ?thesis using g by blast
  qed
qed


text \<open>
  C6: with recursion depth beyond the number of type names the database mentions, the
  closure of every entity is computed, also when members refer to their own type
  directly or through a second type, and it is a finite set of type names of the
  database; a key that is being computed gives its empty in-progress result at once
  and the dictionary is left as it was. The struct that refers to itself has the
  closure {A}; of the two structs that refer to each other, A has the closure {A, B}.
\<close>

theorem closure_terminates_on_cycles:
  assumes iter_ok: "\<And>S. finite S \<Longrightarrow> set (order S) = S"
    and fuel: "length (db_types dbase) + 2 \<le> n"
  shows "(\<exists>S d'. ReferencedTypes_getitem n order dbase predicate key [] = Return (Some S, d') \<and>
                 finite S \<and> S \<subseteq> set (db_types dbase)) \<and>
         (\<forall>d. map_of d key = Some None \<longrightarrow>
              ReferencedTypes_getitem n order dbase predicate key d = Return (None, d)) \<and>
         ReferencedTypes_getitem 3 sorted_list_of_set self_cycle_db always_true ''A'' []
           = Return (Some {''A''}, [(''A'', Some {''A''})]) \<and>
         ReferencedTypes_getitem 4 sorted_list_of_set two_cycle_db always_true ''A'' []
           = Return (Some {''A'', ''B''}, [(''A'', Some {''A'', ''B''}), (''B'', Some {''A''})])"
proof -
  from fuel obtain m where n: "n = Suc m" and m: "length (db_types dbase) < m"
    by (cases n) auto
  let ?e = "[] :: (string \<times> string set option) list"
  have p: "pending dbase (dict_set ?e key None) < m"
    using pending_bound[of dbase "dict_set ?e key None"] m by simp
  have io: "\<forall>S. finite S \<longrightarrow> set (order S) = S" using iter_ok by blast
  have "\<exists>r d'. ReferencedTypes_getitem (Suc m) order dbase predicate key ?e = Return (r, d') \<and>
           refs_step dbase ?e d' \<and>
           (vals_ok dbase ?e \<longrightarrow> (\<forall>S. r = Some S \<longrightarrow> S \<subseteq> set (db_types dbase))) \<and>
           (map_of ?e key \<noteq> Some None \<longrightarrow> r \<noteq> None)"
    by (rule getitem_returns[OF io]) (use p in simp)
  then obtain r d' where g: "ReferencedTypes_getitem (Suc m) order dbase predicate key ?e = Return (r, d')"
    and v: "vals_ok dbase ?e \<longrightarrow> (\<forall>S. r = Some S \<longrightarrow> S \<subseteq> set (db_types dbase))"
    and r: "map_of ?e key \<noteq> Some None \<longrightarrow> r \<noteq> None"
    by (elim exE conjE) (rule that)
  from r obtain S where S: "r = Some S" by auto
  have "S \<subseteq> set (db_types dbase)" using v S by (simp add: vals_ok_def)
  moreover from this have "finite S" by (rule finite_subset) simp
  ultimately have first: "\<exists>S d'. ReferencedTypes_getitem n order dbase predicate key [] = Return (Some S, d') \<and>
                 finite S \<and> S \<subseteq> set (db_types dbase)"
    using g S n by blast
  have second: "\<forall>d. map_of d key = Some None \<longrightarrow>
              ReferencedTypes_getitem n order dbase predicate key d = Return (None, d)"
    using n by simp
  have third: "ReferencedTypes_getitem 3 sorted_list_of_set self_cycle_db always_true ''A'' []
           = Return (Some {''A''}, [(''A'', Some {''A''})])"
    by (simp add: numeral_3_eq_3 ReferencedTypes_compute_def getMemberElems_def self_cycle_db_def
        member_of_type_def direct_types_def always_true_def)
  have fourth: "ReferencedTypes_getitem 4 sorted_list_of_set two_cycle_db always_true ''A'' []
           = Return (Some {''A'', ''B''}, [(''A'', Some {''A'', ''B''}), (''B'', Some {''A''})])"
    by (simp add: eval_nat_numeral ReferencedTypes_compute_def getMemberElems_def two_cycle_db_def
        member_of_type_def direct_types_def always_true_def)
  show ?thesis by (rule conjI[OF first conjI[OF second conjI[OF third fourth]]])
qed

lemma sorted_list_of_set_iter: "finite (S :: string set) \<Longrightarrow> set (sorted_list_of_set S) = S"
  by simp

theorem closure_terminates_on_cycles_witness:
  "\<exists>S d'. ReferencedTypes_getitem 4 sorted_list_of_set two_cycle_db always_true ''B'' []
             = Return (Some S, d') \<and> finite S"
proof -
  have fuel: "length (db_types two_cycle_db) + 2 \<le> 4"
    by (simp add: db_types_def two_cycle_db_def member_of_type_def direct_types_def)
  from closure_terminates_on_cycles[where order=sorted_list_of_set and dbase=two_cycle_db
      and n=4 and predicate=always_true and key="''B''", OF sorted_list_of_set_iter fuel]
  show ?thesis by blast
qed

section \<open>The reverse map\<close>

lemma map_of_add_set:
  "map_of (add_set d k S) =
     (map_of d)(k \<mapsto> (case map_of d k of None \<Rightarrow> S | Some S' \<Rightarrow> S' \<union> S))"
  by (induction d) (auto simp: fun_eq_iff)

lemma keys_add_set: "fst ` set (add_set d k S) = insert k (fst ` set d)"
  by (simp add: dom_map_of_conv_image_fst[symmetric] map_of_add_set)

lemma get_or_empty_add_set:
  "get_or_empty (add_set d k S) c = (if c = k then get_or_empty d k \<union> S else get_or_empty d c)"
  by (simp add: get_or_empty_def map_of_add_set split: option.splits)

lemma map_of_get_or_empty:
  "c \<in> fst ` set d \<Longrightarrow> map_of d c = Some (get_or_empty d c)"
  by (cases "map_of d c") (auto simp: get_or_empty_def map_of_eq_None_iff)

lemma keys_requiring_step:
  "fst ` set (requiring_step t ds c out) = insert c (fst ` set out)"
  by (auto simp: requiring_step_def Let_def keys_add_set split: option.splits)

lemma get_requiring_step:
  "get_or_empty (requiring_step t ds c out) x =
     (if x = c then get_or_empty out c \<union> {t} \<union> (case ds of None \<Rightarrow> {} | Some D \<Rightarrow> D)
      else get_or_empty out x)"
  by (auto simp: requiring_step_def Let_def get_or_empty_add_set split: option.splits)

lemma keys_inner:
  "fst ` set (fold (requiring_step t ds) cs out) = fst ` set out \<union> set cs"
  by (induction cs arbitrary: out) (auto simp: keys_requiring_step)

lemma get_inner:
  "get_or_empty (fold (requiring_step t ds) cs out) x =
     (if x \<in> set cs then get_or_empty out x \<union> {t} \<union> (case ds of None \<Rightarrow> {} | Some D \<Rightarrow> D)
      else get_or_empty out x)"
  by (induction cs arbitrary: out) (auto simp: get_requiring_step)

lemma compute_codes_requiring_type_fold:
  "compute_codes_requiring_type order hdesc entries =
     fold (\<lambda>(in_type, code_set). fold (requiring_step in_type (map_of hdesc in_type)) (order code_set))
       entries []"
  unfolding compute_codes_requiring_type_def requiring_step_def Let_def ..

lemma keys_outer:
  "fst ` set (fold (\<lambda>(in_type, code_set). fold (requiring_step in_type (map_of hdesc in_type)) (order code_set))
       entries out)
   = fst ` set out \<union> {c. \<exists>t cs. (t, cs) \<in> set entries \<and> c \<in> set (order cs)}"
proof (induction entries arbitrary: out)
  case Nil
  then show ?case by simp
next
  case (Cons a entries)
  obtain t cs where a: "a = (t, cs)" by (cases a)
  have "{c. \<exists>t' cs'. (t', cs') \<in> set (a # entries) \<and> c \<in> set (order cs')}
        = set (order cs) \<union> {c. \<exists>t' cs'. (t', cs') \<in> set entries \<and> c \<in> set (order cs')}"
    using a by auto
  then show ?case
    using Cons.IH[of "fold (requiring_step t (map_of hdesc t)) (order cs) out"] a
    by (simp add: keys_inner Un_assoc)
qed

lemma get_outer_mono:
  "get_or_empty out x \<subseteq>
   get_or_empty (fold (\<lambda>(in_type, code_set). fold (requiring_step in_type (map_of hdesc in_type)) (order code_set))
       entries out) x"
proof (induction entries arbitrary: out)
  case Nil
  then show ?case by simp
next
  case (Cons a entries)
  obtain t cs where a: "a = (t, cs)" by (cases a)
  have "get_or_empty out x \<subseteq> get_or_empty (fold (requiring_step t (map_of hdesc t)) (order cs) out) x"
    by (auto simp: get_inner)
  with Cons.IH[of "fold (requiring_step t (map_of hdesc t)) (order cs) out"] a
  show ?case by auto
qed

lemma get_outer_has:
  assumes "(t, cs) \<in> set entries" and "c \<in> set (order cs)"
  shows "{t} \<union> (case map_of hdesc t of None \<Rightarrow> {} | Some D \<Rightarrow> D) \<subseteq>
   get_or_empty (fold (\<lambda>(in_type, code_set). fold (requiring_step in_type (map_of hdesc in_type)) (order code_set))
       entries out) c"
  using assms
proof (induction entries arbitrary: out)
  case Nil
  then show ?case by simp
next
  case (Cons a entries)
  show ?case
  proof (cases "a = (t, cs)")
    case True
    let ?o = "fold (requiring_step t (map_of hdesc t)) (order cs) out"
    have "{t} \<union> (case map_of hdesc t of None \<Rightarrow> {} | Some D \<Rightarrow> D) \<subseteq> get_or_empty ?o c"
      using Cons.prems(2) by (auto simp: get_inner)
    also have "\<dots> \<subseteq> get_or_empty (fold (\<lambda>(in_type, code_set).
         fold (requiring_step in_type (map_of hdesc in_type)) (order code_set)) entries ?o) c"
      by (rule get_outer_mono)
    finally show ?thesis using True by simp
  next
    case False
    with Cons.prems have "(t, cs) \<in> set entries" by simp
    from Cons.IH[OF this Cons.prems(2)] show ?thesis by (cases a) simp
  qed
qed


lemma distinct_add_set: "distinct (map fst d) \<Longrightarrow> distinct (map fst (add_set d k S))"
proof (induction d)
  case Nil
  then show ?case by simp
next
  case (Cons a d)
  have "fst ` set (add_set d k S) = insert k (fst ` set d)" by (rule keys_add_set)
  with Cons show ?case by (cases a) auto
qed

lemma finite_strs_of: "finite (strs_of v)"
  by (cases v) auto

lemma config_fold:
  "distinct (map fst d0) \<Longrightarrow>
   distinct (map fst (fold (\<lambda>(k, v) acc. add acc k v) cfg d0)) \<and>
   fst ` set (fold (\<lambda>(k, v) acc. add acc k v) cfg d0) = fst ` set d0 \<union> fst ` set cfg \<and>
   (\<forall>t. get_or_empty (fold (\<lambda>(k, v) acc. add acc k v) cfg d0) t
        = get_or_empty d0 t \<union> \<Union> {strs_of v | v. (t, v) \<in> set cfg})"
proof (induction cfg arbitrary: d0)
  case Nil
  then show ?case by simp
next
  case (Cons a cfg)
  obtain k v where a: "a = (k, v)" by (cases a)
  let ?d1 = "add d0 k v"
  let ?r = "fold (\<lambda>(k, v) acc. add acc k v) cfg ?d1"
  have d1: "distinct (map fst ?d1)" using Cons.prems by (simp add: add_def distinct_add_set)
  have k1: "fst ` set ?d1 = insert k (fst ` set d0)" by (simp add: add_def keys_add_set)
  have g1: "get_or_empty ?d1 t = (if t = k then get_or_empty d0 k \<union> strs_of v else get_or_empty d0 t)" for t
    by (simp add: add_def get_or_empty_add_set)
  have u: "\<Union> {strs_of w | w. (t, w) \<in> set (a # cfg)}
           = (if t = k then strs_of v else {}) \<union> \<Union> {strs_of w | w. (t, w) \<in> set cfg}" for t
    unfolding a by auto
  from Cons.IH[OF d1] have ih1: "distinct (map fst ?r)"
    and ih2: "fst ` set ?r = fst ` set ?d1 \<union> fst ` set cfg"
    and ih3: "\<And>t. get_or_empty ?r t = get_or_empty ?d1 t \<union> \<Union> {strs_of v | v. (t, v) \<in> set cfg}"
    by blast+
  have f: "fold (\<lambda>(k, v) acc. add acc k v) (a # cfg) d0 = ?r" unfolding a by simp
  have "fst ` set ?r = fst ` set d0 \<union> fst ` set (a # cfg)"
    unfolding ih2 k1 a by auto
  moreover have "get_or_empty ?r t = get_or_empty d0 t \<union> \<Union> {strs_of w | w. (t, w) \<in> set (a # cfg)}" for t
    unfolding ih3 g1 u by auto
  ultimately show ?case unfolding f using ih1 by blast
qed

lemma finite_config_entry:
  "finite (\<Union> {strs_of v | v. (t, v) \<in> set cfg})"
proof (rule finite_Union)
  have "{strs_of v | v. (t, v) \<in> set cfg} = (\<lambda>p. strs_of (snd p)) ` {p \<in> set cfg. fst p = t}"
    by (auto simp: image_iff)
  then show "finite {strs_of v | v. (t, v) \<in> set cfg}" by simp
  show "\<And>M. M \<in> {strs_of v | v. (t, v) \<in> set cfg} \<Longrightarrow> finite M"
    by (auto simp: finite_strs_of)
qed


text \<open>
  C5: once the ancestors are computed, the checker is built, and for every association
  of a type T with a code C in the reverse-only or the common configuration the reverse
  map has an entry for C that contains T and every descendant the dictionary of
  descendants gives for T; a code of no association has no entry.
\<close>

theorem reverse_map_types_and_descendants:
  assumes iter_ok: "\<And>S. finite S \<Longrightarrow> set (iter e S) = S"
    and anc: "ancestors_dict n (reg e) = Return anc"
  shows "\<exists>c. XMLChecker_init n e manual forward_only reverse_only supp = Return c \<and>
           (\<forall>T v C. (T, v) \<in> set reverse_only \<union> set manual \<longrightarrow> C \<in> strs_of v \<longrightarrow>
              (\<exists>S. map_of (codes_requiring_input_type c) C = Some S \<and> T \<in> S \<and>
                    (\<forall>D. map_of (descendants_of anc) T = Some D \<longrightarrow> D \<subseteq> S))) \<and>
           (\<forall>C. (\<forall>T v. (T, v) \<in> set reverse_only \<union> set manual \<longrightarrow> C \<notin> strs_of v) \<longrightarrow>
                map_of (codes_requiring_input_type c) C = None)"
proof -
  let ?cfg = "reverse_only @ manual"
  let ?entries = "fold (\<lambda>(k, v) acc. add acc k v) ?cfg []"
  let ?hdesc = "descendants_of anc"
  let ?out = "compute_codes_requiring_type (iter e) ?hdesc ?entries"
  have rc: "fold (\<lambda>(k, v) acc. add acc k v) manual (DictOfStringSets reverse_only) = ?entries"
    by (simp add: DictOfStringSets_def)
  obtain c where c: "XMLChecker_init n e manual forward_only reverse_only supp = Return c"
    and cr: "codes_requiring_input_type c = ?out"
    using anc by (simp add: XMLChecker_init_def Let_def rc)
  have cf: "distinct (map fst ?entries)"
    "fst ` set ?entries = fst ` set ?cfg"
    "\<And>t. get_or_empty ?entries t = \<Union> {strs_of v | v. (t, v) \<in> set ?cfg}"
    using config_fold[of "[]" ?cfg] by (simp_all add: get_or_empty_def)
  have fin: "finite cs" if "(t, cs) \<in> set ?entries" for t cs
  proof -
    from that cf(1) have "map_of ?entries t = Some cs" by simp
    then have "cs = get_or_empty ?entries t" by (simp add: get_or_empty_def)
    then show ?thesis using cf(3)[of t] finite_config_entry[of t ?cfg] by simp
  qed
  have out: "?out = fold (\<lambda>(in_type, code_set).
       fold (requiring_step in_type (map_of ?hdesc in_type)) (iter e code_set)) ?entries []"
    by (rule compute_codes_requiring_type_fold)
  have has: "\<exists>S. map_of (codes_requiring_input_type c) C = Some S \<and> T \<in> S \<and>
                 (\<forall>D. map_of (descendants_of anc) T = Some D \<longrightarrow> D \<subseteq> S)"
    if tv: "(T, v) \<in> set reverse_only \<union> set manual" and C: "C \<in> strs_of v" for T v C
  proof -
    let ?cs = "get_or_empty ?entries T"
    from tv have "T \<in> fst ` set ?entries" unfolding cf(2) by force
    then have m: "map_of ?entries T = Some ?cs" by (rule map_of_get_or_empty)
    then have ent: "(T, ?cs) \<in> set ?entries" by (rule map_of_SomeD)
    have "C \<in> ?cs" unfolding cf(3) using tv C by auto
    moreover have "set (iter e ?cs) = ?cs" using fin[OF ent] by (rule iter_ok)
    ultimately have Cin: "C \<in> set (iter e ?cs)" by simp
    have sub: "{T} \<union> (case map_of ?hdesc T of None \<Rightarrow> {} | Some D \<Rightarrow> D) \<subseteq> get_or_empty ?out C"
      unfolding out by (rule get_outer_has[where order="iter e" and cs="?cs", OF ent Cin])
    have "C \<in> fst ` set ?out"
      unfolding out keys_outer using ent Cin by blast
    then have "map_of ?out C = Some (get_or_empty ?out C)" by (rule map_of_get_or_empty)
    moreover have "T \<in> get_or_empty ?out C" using sub by simp
    moreover have "\<forall>D. map_of ?hdesc T = Some D \<longrightarrow> D \<subseteq> get_or_empty ?out C"
      using sub by auto
    ultimately show ?thesis unfolding cr by blast
  qed
  have none: "map_of (codes_requiring_input_type c) C = None"
    if no: "\<forall>T v. (T, v) \<in> set reverse_only \<union> set manual \<longrightarrow> C \<notin> strs_of v" for C
  proof (rule ccontr)
    assume "map_of (codes_requiring_input_type c) C \<noteq> None"
    then have "map_of ?out C \<noteq> None" unfolding cr .
    then have "C \<in> fst ` set ?out" by (simp add: map_of_eq_None_iff)
    then obtain t cs where ent: "(t, cs) \<in> set ?entries" and Cin: "C \<in> set (iter e cs)"
      unfolding out keys_outer by auto
    from Cin have "C \<in> cs" using iter_ok[OF fin[OF ent]] by simp
    moreover from ent cf(1) have "map_of ?entries t = Some cs" by simp
    then have "cs = get_or_empty ?entries t" by (simp add: get_or_empty_def)
    ultimately have "C \<in> \<Union> {strs_of v | v. (t, v) \<in> set ?cfg}" using cf(3)[of t] by simp
    then obtain v where "(t, v) \<in> set ?cfg" "C \<in> strs_of v" by auto
    with no show False by auto
  qed
  from c has none show ?thesis by blast
qed


lemma device_ancestors:
  "ancestors_dict 2 (reg device_env) = Return [(''Instance'', []), (''Device'', [''Instance''])]"
  by (simp add: ancestors_dict_def HandleParents_def handle_types_def device_env_def
      handle_elem_def HandleParents_compute_def numeral_2_eq_2)

lemma device_iter: "finite S \<Longrightarrow> set (iter device_env S) = S"
  by (simp add: device_env_def)

theorem reverse_map_types_and_descendants_witness:
  "\<exists>c S. XMLChecker_init 2 device_env device_codes [] [] [] = Return c \<and>
         map_of (codes_requiring_input_type c) ''CODE_B'' = Some S \<and>
         ''Instance'' \<in> S \<and> ''Device'' \<in> S"
proof -
  from reverse_map_types_and_descendants[where e=device_env and n=2 and manual=device_codes
      and forward_only="[]" and reverse_only="[]" and supp="[]", OF device_iter device_ancestors]
  obtain c where c: "XMLChecker_init 2 device_env device_codes [] [] [] = Return c"
    and h: "\<forall>T v C. (T, v) \<in> set [] \<union> set device_codes \<longrightarrow> C \<in> strs_of v \<longrightarrow>
              (\<exists>S. map_of (codes_requiring_input_type c) C = Some S \<and> T \<in> S \<and>
                    (\<forall>D. map_of (descendants_of [(''Instance'', []), (''Device'', [''Instance''])]) T = Some D
                        \<longrightarrow> D \<subseteq> S))"
    by blast
  have "(''Instance'', Strs [''CODE_B'']) \<in> set [] \<union> set device_codes"
    by (simp add: device_codes_def)
  moreover have "''CODE_B'' \<in> strs_of (Strs [''CODE_B''])" by simp
  ultimately obtain S where S: "map_of (codes_requiring_input_type c) ''CODE_B'' = Some S"
    "''Instance'' \<in> S"
    "\<forall>D. map_of (descendants_of [(''Instance'', []), (''Device'', [''Instance''])]) ''Instance'' = Some D
        \<longrightarrow> D \<subseteq> S"
    using h by blast
  have "map_of (descendants_of [(''Instance'', []), (''Device'', [''Instance''])]) ''Instance''
        = Some {''Device''}"
    by (simp add: descendants_of_def get_descendants_def)
  with S(3) have "''Device'' \<in> S" by blast
  with c S(1,2) show ?thesis by blast
qed

section \<open>The Device example\<close>

lemma device_init:
  "XMLChecker_init 2 device_env device_codes [] [] [] =
     Return \<lparr>fail = False, ctx = None, errors = [], warnings = [],
             input_type_to_codes = [(''Device'', {''CODE_A''}), (''Instance'', {''CODE_B''})],
             codes_requiring_input_type =
               [(''CODE_A'', {''Device''}), (''CODE_B'', {''Instance'', ''Device''})],
             referenced_input_types = [], referenced_api_types = [], suppressions = []\<rparr>"
  unfolding XMLChecker_init_def device_ancestors
  by (simp add: device_codes_def DictOfStringSets_def add_def compute_type_to_codes_def
      add_extra_codes_def compute_codes_requiring_type_def descendants_of_def get_descendants_def
      device_env_def Let_def)


lemma device_closure_input:
  "ReferencedTypes_getitem 3 sorted_list_of_set [(''Cmd'', [device_param])] (is_input (\<lambda>c. False) \<lparr>type_prefix = [], xml_api_name = ''api''\<rparr>) ''Cmd'' []
   = Return (Some {''Device''}, [(''Cmd'', Some {''Device''}), (''Device'', Some {})])"
  by (simp add: numeral_3_eq_3 ReferencedTypes_compute_def getMemberElems_def direct_types_def
      device_param_def is_input_def CONST_RE_search_def is_word_char_def)

lemma device_closure_api:
  "ReferencedTypes_getitem 3 sorted_list_of_set [(''Cmd'', [device_param])] (is_api_type \<lparr>type_prefix = [], xml_api_name = ''api''\<rparr>) ''Cmd'' []
   = Return (Some {''Device''}, [(''Cmd'', Some {''Device''}), (''Device'', Some {})])"
  by (simp add: numeral_3_eq_3 ReferencedTypes_compute_def getMemberElems_def direct_types_def
      device_param_def is_api_type_def)

lemma device_check_errors:
  "res_bind (check 3 device_env device_checker) (\<lambda>(s, out). Return (fail s, errors s, out)) =
     Return (True, [(''Cmd'', {''CODE_A in errorcodes but doesn't contain _ERROR_''})],
       [[], ''-------------------'', ''Messages for Cmd'', [],
        ''Error: CODE_A in errorcodes but doesn't contain _ERROR_''])"
  by (simp add: check_def check_entities_def device_env_def device_checker_def device_cmd_def
      check_command_def check_params_def check_param_def codes_of_def
      check_command_return_codes_basic_def check_command_return_codes_def
      get_referenced_input_def get_referenced_types_def device_closure_input[unfolded device_param_def] device_closure_api[unfolded device_param_def]
      should_skip_checking_codes_def set_error_context_def record_error_def suppressed_def
      prepend_sourceline_to_message_def no_kwargs_def get_codes_for_command_and_type_def
      get_or_empty_def handle_elem_def check_type_def check_extension_def
      print_messages_def print_entity_def Let_def device_param_def)


lemma device_init_checker:
  "XMLChecker_init 2 device_env device_codes [] [] [] = Return device_checker"
  unfolding device_checker_def by (rule device_init)

lemma get_or_empty_fold_empty:
  "get_or_empty (fold (\<lambda>(handle_type, extras) acc. add_set acc handle_type extras)
                   (map (\<lambda>(handle_type, ancestors). (handle_type, {})) hs) d) h
   = get_or_empty d h"
proof (induction hs arbitrary: d)
  case Nil
  then show ?case by simp
next
  case (Cons a hs)
  obtain k v where a: "a = (k, v)" by (cases a)
  have "get_or_empty (add_set d k {}) h = get_or_empty d h"
    by (simp add: get_or_empty_add_set)
  with Cons.IH[of "add_set d k {}"] show ?case unfolding a by simp
qed

section \<open>The forward map\<close>

text \<open>
  C1 fails on the code: \<open>compute_type_to_codes\<close> adds the empty set to the entry of every
  handle type, so every entry of the forward map is the entry of the configuration. In
  the example (Device with the code CODE_A, its ancestor Instance with CODE_B, a command
  with an input parameter of type Device that declares the error code CODE_A only) the
  entry of Device is {CODE_A}, and the only error of the run says that CODE_A lacks the
  error marker: no missing return code is reported.
\<close>

theorem forward_map_omits_ancestor_codes:
  "(\<forall>handle_ancestors types_to_codes h.
      get_or_empty (compute_type_to_codes handle_ancestors types_to_codes add_extra_codes) h
        = get_or_empty types_to_codes h) \<and>
   res_bind (XMLChecker_init 2 device_env device_codes [] [] [])
     (\<lambda>c. Return (get_or_empty (input_type_to_codes c) ''Device'')) = Return {''CODE_A''} \<and>
   res_bind (XMLChecker_init 2 device_env device_codes [] [] [])
     (\<lambda>c. res_bind (check 3 device_env c) (\<lambda>(s, out). Return (fail s, errors s, out))) =
     Return (True, [(''Cmd'', {''CODE_A in errorcodes but doesn't contain _ERROR_''})],
       [[], ''-------------------'', ''Messages for Cmd'', [],
        ''Error: CODE_A in errorcodes but doesn't contain _ERROR_''])"
proof -
  have "get_or_empty (compute_type_to_codes handle_ancestors types_to_codes add_extra_codes) h
        = get_or_empty types_to_codes h" for handle_ancestors types_to_codes h
    by (simp add: compute_type_to_codes_def add_extra_codes_def Let_def get_or_empty_fold_empty)
  moreover have "res_bind (XMLChecker_init 2 device_env device_codes [] [] [])
     (\<lambda>c. Return (get_or_empty (input_type_to_codes c) ''Device'')) = Return {''CODE_A''}"
    by (simp add: device_init get_or_empty_def)
  moreover have "res_bind (XMLChecker_init 2 device_env device_codes [] [] [])
     (\<lambda>c. res_bind (check 3 device_env c) (\<lambda>(s, out). Return (fail s, errors s, out))) =
     Return (True, [(''Cmd'', {''CODE_A in errorcodes but doesn't contain _ERROR_''})],
       [[], ''-------------------'', ''Messages for Cmd'', [],
        ''Error: CODE_A in errorcodes but doesn't contain _ERROR_''])"
    unfolding device_init_checker using device_check_errors by simp
  ultimately show ?thesis by blast
qed

section \<open>The report\<close>

lemma fold_append_concat:
  "fold (\<lambda>x out. out @ f x) xs acc = acc @ concat (map f xs)"
  by (induction xs arbitrary: acc) auto

lemma print_messages_sections:
  "print_messages e s =
     concat (map (print_entity e s) (iter e (fst ` set (errors s) \<union> fst ` set (warnings s))))"
  by (simp add: print_messages_def Let_def fold_append_concat)

text \<open>
  C2, as the specification states it, fails: the entities are iterated in the order of
  the set, and no sorting takes place. When the set is iterated from b to a, the section
  of b is printed before the section of a.
\<close>

theorem report_order_counterexample:
  "print_messages descending_env two_entities =
     [[], ''-------------------'', ''Messages for b'', [], ''Error: x'',
      [], ''-------------------'', ''Messages for a'', [], ''Warning: y''] \<and>
   sorted_list_of_set (fst ` set (errors two_entities) \<union> fst ` set (warnings two_entities))
     = [''a'', ''b'']"
  by (simp add: print_messages_def print_entity_def descending_env_def two_entities_def
      device_checker_def device_env_def)

text \<open>
  C2, amended: the report is one section per entity that has an entry of errors or of
  warnings, each such entity once, in the order in which the set of these entity names
  is iterated; a section is its four header lines, then one line for each error of the
  entity, then one line for each of its warnings.
\<close>

theorem report_sections_in_iteration_order:
  assumes iter_all: "\<forall>S. finite S \<longrightarrow> set (iter e S) = S \<and> distinct (iter e S)"
    and fin_all: "\<forall>x ms. (x, ms) \<in> set (errors s) \<union> set (warnings s) \<longrightarrow> finite ms"
  shows "\<exists>names. print_messages e s = concat (map (print_entity e s) names) \<and>
           names = iter e (fst ` set (errors s) \<union> fst ` set (warnings s)) \<and>
           distinct names \<and>
           set names = fst ` set (errors s) \<union> fst ` set (warnings s) \<and>
           (\<forall>x. \<exists>es ws.
              print_entity e s x =
                [[], ''-------------------'', ''Messages for '' @ x, []]
                @ map (\<lambda>m. ''Error: '' @ m) es @ map (\<lambda>m. ''Warning: '' @ m) ws \<and>
              distinct es \<and> set es = get_or_empty (errors s) x \<and>
              distinct ws \<and> set ws = get_or_empty (warnings s) x)"
proof -
  have iter_ok: "\<And>S. finite S \<Longrightarrow> set (iter e S) = S \<and> distinct (iter e S)"
    using iter_all by blast
  have fin: "\<And>x ms. (x, ms) \<in> set (errors s) \<union> set (warnings s) \<Longrightarrow> finite ms"
    using fin_all by blast
  let ?keys = "fst ` set (errors s) \<union> fst ` set (warnings s)"
  have "finite ?keys" by simp
  from iter_ok[OF this] have names: "set (iter e ?keys) = ?keys" "distinct (iter e ?keys)"
    by simp_all
  have bucket: "\<exists>ms. (case map_of d x of None \<Rightarrow> []
                       | Some messages \<Rightarrow> if messages \<noteq> {} then map f (iter e messages) else [])
                    = map f ms \<and> distinct ms \<and> set ms = get_or_empty d x"
    if d: "\<And>ms. (x, ms) \<in> set d \<Longrightarrow> finite ms" for d :: DictOfStringSets and x and f :: "string \<Rightarrow> string"
  proof (cases "map_of d x")
    case None
    then show ?thesis by (simp add: get_or_empty_def)
  next
    case (Some messages)
    then have "finite messages" using d by (auto dest: map_of_SomeD)
    from iter_ok[OF this] have i: "set (iter e messages) = messages" "distinct (iter e messages)"
      by simp_all
    show ?thesis
    proof (cases "messages = {}")
      case True
      with Some show ?thesis by (simp add: get_or_empty_def)
    next
      case False
      with Some i show ?thesis by (auto simp: get_or_empty_def)
    qed
  qed
  have sect: "\<exists>es ws.
              print_entity e s x =
                [[], ''-------------------'', ''Messages for '' @ x, []]
                @ map (\<lambda>m. ''Error: '' @ m) es @ map (\<lambda>m. ''Warning: '' @ m) ws \<and>
              distinct es \<and> set es = get_or_empty (errors s) x \<and>
              distinct ws \<and> set ws = get_or_empty (warnings s) x" for x
  proof -
    from bucket[of x "errors s" "\<lambda>m. ''Error: '' @ m"] fin
    obtain es where es: "(case map_of (errors s) x of None \<Rightarrow> []
          | Some messages \<Rightarrow> if messages \<noteq> {} then map (\<lambda>m. ''Error: '' @ m) (iter e messages) else [])
        = map (\<lambda>m. ''Error: '' @ m) es" "distinct es" "set es = get_or_empty (errors s) x"
      by auto
    from bucket[of x "warnings s" "\<lambda>m. ''Warning: '' @ m"] fin
    obtain ws where ws: "(case map_of (warnings s) x of None \<Rightarrow> []
          | Some messages \<Rightarrow> if messages \<noteq> {} then map (\<lambda>m. ''Warning: '' @ m) (iter e messages) else [])
        = map (\<lambda>m. ''Warning: '' @ m) ws" "distinct ws" "set ws = get_or_empty (warnings s) x"
      by auto
    have "print_entity e s x =
                [[], ''-------------------'', ''Messages for '' @ x, []]
                @ map (\<lambda>m. ''Error: '' @ m) es @ map (\<lambda>m. ''Warning: '' @ m) ws"
      unfolding print_entity_def es(1) ws(1) ..
    with es(2,3) ws(2,3) show ?thesis by blast
  qed
  from print_messages_sections[of e s] names sect show ?thesis by blast
qed


lemma device_iter_distinct:
  "\<forall>S. finite S \<longrightarrow> set (iter device_env S) = S \<and> distinct (iter device_env S)"
  by (simp add: device_env_def)

lemma two_entities_finite:
  "\<forall>x ms. (x, ms) \<in> set (errors two_entities) \<union> set (warnings two_entities) \<longrightarrow> finite ms"
  by (auto simp: two_entities_def)

theorem report_sections_in_iteration_order_witness:
  "\<exists>names. print_messages device_env two_entities
             = concat (map (print_entity device_env two_entities) names) \<and>
           distinct names \<and> set names = {''a'', ''b''}"
proof -
  from report_sections_in_iteration_order[where e=device_env and s=two_entities,
      OF device_iter_distinct two_entities_finite]
  obtain names where n: "print_messages device_env two_entities
             = concat (map (print_entity device_env two_entities) names)"
    "distinct names"
    "set names = fst ` set (errors two_entities) \<union> fst ` set (warnings two_entities)"
    by blast
  have "fst ` set (errors two_entities) \<union> fst ` set (warnings two_entities) = {''a'', ''b''}"
    by (auto simp: two_entities_def)
  with n show ?thesis by auto
qed

section \<open>Recording and the checks\<close>

lemma ok_step_refl: "ok_step e P s s"
  by (simp add: ok_step_def)

lemma ok_step_trans: "ok_step e P s s1 \<Longrightarrow> ok_step e P s1 s2 \<Longrightarrow> ok_step e P s s2"
  unfolding ok_step_def by (auto; blast)

lemma record_error_step:
  assumes "ctx s \<noteq> None" and "P (join '' '' args)"
  shows "\<exists>s'. record_error e args no_kwargs s = Return s' \<and> ok_step e P s s'"
proof -
  from assms(1) obtain c where c: "ctx s = Some c" by auto
  show ?thesis
  proof (cases "suppressed c (join '' '' args)")
    case True
    with c show ?thesis by (simp add: record_error_def ok_step_refl)
  next
    case False
    let ?m = "prepend_sourceline_to_message e c (join '' '' args) no_kwargs"
    let ?s = "s\<lparr>fail := True, errors := add_set (errors s) (entity c) {?m}\<rparr>"
    have r: "record_error e args no_kwargs s = Return ?s"
      using c False by (simp add: record_error_def Let_def)
    have g: "get_or_empty (errors ?s) x =
             (if x = entity c then get_or_empty (errors s) (entity c) \<union> {?m}
              else get_or_empty (errors s) x)" for x
      by (simp add: get_or_empty_add_set)
    have "fail_inv ?s"
      unfolding fail_inv_def using g[of "entity c"] by (auto simp del: )
    moreover have "sentinel_free s \<longrightarrow> sentinel_free ?s" by (simp add: sentinel_free_def)
    moreover have "\<forall>x. get_or_empty (errors s) x \<subseteq> get_or_empty (errors ?s) x"
      using g by auto
    moreover have "\<forall>x m. m \<in> get_or_empty (errors ?s) x \<longrightarrow>
         m \<in> get_or_empty (errors s) x \<or>
         (\<exists>c msg. ctx s = Some c \<and> x = entity c \<and>
            m = prepend_sourceline_to_message e c msg no_kwargs \<and> P msg)"
      using g c assms(2) by (auto split: if_splits)
    ultimately have "ok_step e P s ?s" by (simp add: ok_step_def)
    with r show ?thesis by blast
  qed
qed

lemma for_each_step:
  assumes "\<And>x s. x \<in> set xs \<Longrightarrow> ctx s \<noteq> None \<Longrightarrow> \<exists>s'. body x s = Return s' \<and> ok_step e P s s'"
    and "ctx s \<noteq> None"
  shows "\<exists>s'. for_each body xs s = Return s' \<and> ok_step e P s s'"
  using assms
proof (induction xs arbitrary: s)
  case Nil
  then show ?case by (simp add: ok_step_refl)
next
  case (Cons x xs)
  from Cons.prems(1)[of x s] Cons.prems(2)
  obtain s1 where b: "body x s = Return s1" and o1: "ok_step e P s s1" by auto
  then have "ctx s1 \<noteq> None" using Cons.prems(2) by (simp add: ok_step_def)
  with Cons.IH[of s1] Cons.prems(1)
  obtain s' where f: "for_each body xs s1 = Return s'" and o2: "ok_step e P s1 s'" by auto
  from b f have "for_each body (x # xs) s = Return s'" by simp
  with ok_step_trans[OF o1 o2] show ?case by blast
qed

lemma bind_step:
  assumes "\<exists>s1. f = Return s1 \<and> ok_step e P s s1"
    and "\<And>s1. ok_step e P s s1 \<Longrightarrow> \<exists>s'. g s1 = Return s' \<and> ok_step e P s1 s'"
  shows "\<exists>s'. res_bind f g = Return s' \<and> ok_step e P s s'"
proof -
  from assms(1) obtain s1 where f: "f = Return s1" and o1: "ok_step e P s s1" by blast
  from assms(2)[OF o1] obtain s' where g: "g s1 = Return s'" and o2: "ok_step e P s1 s'" by blast
  from f g have "res_bind f g = Return s'" by simp
  with ok_step_trans[OF o1 o2] show ?thesis by blast
qed

lemma ok_step_ctx: "ok_step e P s s' \<Longrightarrow> ctx s \<noteq> None \<Longrightarrow> ctx s' \<noteq> None"
  by (simp add: ok_step_def)


lemma ok_step_weaken: "ok_step e P s s' \<Longrightarrow> (\<And>m. P m \<Longrightarrow> Q m) \<Longrightarrow> ok_step e Q s s'"
  unfolding ok_step_def by blast

lemma ends_differ:
  assumes "last ys \<noteq> last zs" and "ys \<noteq> []"
  shows "xs @ ys \<noteq> zs"
proof
  assume "xs @ ys = zs"
  then have "last (xs @ ys) = last zs" by simp
  with assms show False by simp
qed

lemma not_overlap_errorcodes:
  "not_overlap (join '' '' [code, ''in errorcodes but doesn't contain _ERROR_''])"
  unfolding not_overlap_def overlap_message_def
  by (simp add: ends_differ)

lemma not_overlap_successcodes:
  "not_overlap (join '' '' [code, ''in successcodes but contain _ERROR_''])"
  unfolding not_overlap_def overlap_message_def
  by (simp add: ends_differ)

lemma check_param_step:
  assumes "ctx s \<noteq> None"
  shows "\<exists>s'. check_param e param s = Return s' \<and> ok_step e not_overlap s s'"
proof (cases "m_externsync param = []")
  case True
  then show ?thesis by (simp add: check_param_def ok_step_refl)
next
  case False
  have "\<exists>s'. for_each
             (\<lambda>entry s.
                if entirely_extern_sync entry then
                  (if length (m_externsync param) > 1 then
                     record_error e
                       [''Comma-separated list in externsync attribute includes '' @ [CHR 0x27]
                          @ ''true'' @ [CHR 0x27] @ '' for'',
                        m_name param] no_kwargs s
                   else Return s)
                else if es_member entry \<noteq> m_name param then
                  record_error e
                    [''externsync attribute for'', m_name param,
                     ''refers to some other member/parameter:'', es_member entry] no_kwargs s
                else Return s)
             (m_externsync param) s = Return s' \<and> ok_step e not_overlap s s'"
  proof (rule for_each_step[OF _ assms])
    fix x s assume c: "ctx (s::checker) \<noteq> None"
    show "\<exists>s'. (if entirely_extern_sync x then
                  (if length (m_externsync param) > 1 then
                     record_error e
                       [''Comma-separated list in externsync attribute includes '' @ [CHR 0x27]
                          @ ''true'' @ [CHR 0x27] @ '' for'',
                        m_name param] no_kwargs s
                   else Return s)
                else if es_member x \<noteq> m_name param then
                  record_error e
                    [''externsync attribute for'', m_name param,
                     ''refers to some other member/parameter:'', es_member x] no_kwargs s
                else Return s) = Return s' \<and> ok_step e not_overlap s s'"
      by (auto intro!: record_error_step[where P=not_overlap, OF c] simp: ok_step_refl not_overlap_def overlap_message_def)
  qed
  with False show ?thesis by (simp add: check_param_def Let_def)
qed

lemma check_params_step:
  assumes "ctx s \<noteq> None"
  shows "\<exists>s'. check_params e params s = Return s' \<and> ok_step e not_overlap s s'"
  unfolding check_params_def
proof (rule for_each_step[OF _ assms])
  fix param s assume c: "ctx (s::checker) \<noteq> None"
  show "\<exists>s'. res_bind (check_param e param s)
            (for_each
               (\<lambda>entry s.
                  case other_param_name entry of
                    None \<Rightarrow> Return s
                  | Some other \<Rightarrow>
                      if other = [] then Return s
                      else (case findNamedElem params other of
                              None \<Rightarrow>
                                record_error e
                                  [''References a non-existent parameter/member in the length of'',
                                   m_name param, '':'', other] no_kwargs s
                            | Some other_param \<Rightarrow> Return s))
               (m_len param)) = Return s' \<and> ok_step e not_overlap s s'"
  proof (rule bind_step[OF check_param_step[OF c]])
    fix s1 assume "ok_step e not_overlap s s1"
    then have c1: "ctx s1 \<noteq> None" using c by (rule ok_step_ctx)
    show "\<exists>s'. for_each
               (\<lambda>entry s.
                  case other_param_name entry of
                    None \<Rightarrow> Return s
                  | Some other \<Rightarrow>
                      if other = [] then Return s
                      else (case findNamedElem params other of
                              None \<Rightarrow>
                                record_error e
                                  [''References a non-existent parameter/member in the length of'',
                                   m_name param, '':'', other] no_kwargs s
                            | Some other_param \<Rightarrow> Return s))
               (m_len param) s1 = Return s' \<and> ok_step e not_overlap s1 s'"
    proof (rule for_each_step[OF _ c1])
      fix entry s assume c: "ctx (s::checker) \<noteq> None"
      show "\<exists>s'. (case other_param_name entry of
                    None \<Rightarrow> Return s
                  | Some other \<Rightarrow>
                      if other = [] then Return s
                      else (case findNamedElem params other of
                              None \<Rightarrow>
                                record_error e
                                  [''References a non-existent parameter/member in the length of'',
                                   m_name param, '':'', other] no_kwargs s
                            | Some other_param \<Rightarrow> Return s)) = Return s' \<and> ok_step e not_overlap s s'"
        by (auto intro!: record_error_step[where P=not_overlap, OF c] simp: ok_step_refl not_overlap_def overlap_message_def
            split: option.splits)
    qed
  qed
qed

lemma check_type_step:
  assumes "ctx s \<noteq> None"
  shows "\<exists>s'. check_type e type_name info category s = Return s' \<and> ok_step e not_overlap s s'"
proof -
  have a: "\<exists>s1. (if \<not> startswith type_name (type_prefix (conv e)) then
             record_error e [''Name does not start with'', type_prefix (conv e)] no_kwargs s
           else Return s) = Return s1 \<and> ok_step e not_overlap s s1"
    by (auto intro!: record_error_step[where P=not_overlap, OF assms] simp: ok_step_refl not_overlap_def overlap_message_def)
  have b: "\<exists>s'. (if \<not> contains type_name ''Flags'' then
           record_error e
             [''Name of bitmask doesn't include '' @ [CHR 0x27] @ ''Flags'' @ [CHR 0x27]]
             no_kwargs s
         else Return s) = Return s' \<and> ok_step e not_overlap s s'"
    by (auto intro!: record_error_step[where P=not_overlap, OF assms] simp: ok_step_refl not_overlap_def overlap_message_def)
  have c: "\<exists>s'. res_bind
          (if \<not> startswith type_name (type_prefix (conv e)) then
             record_error e [''Name does not start with'', type_prefix (conv e)] no_kwargs s
           else Return s)
          (check_params e (t_members info)) = Return s' \<and> ok_step e not_overlap s s'"
    by (rule bind_step[OF a]) (rule check_params_step, erule ok_step_ctx, rule assms)
  show ?thesis
    unfolding check_type_def using b c by (simp add: ok_step_refl)
qed

lemma check_extension_step:
  "\<exists>s'. check_extension e ext_name info s = Return s' \<and> ok_step e not_overlap s s'"
  by (simp add: check_extension_def ok_step_refl)

lemma basic_step:
  assumes "ctx s \<noteq> None"
  shows "\<exists>s'. check_command_return_codes_basic e cmd_name info successcodes errorcodes s = Return s'
           \<and> ok_step e not_overlap s s'"
  unfolding check_command_return_codes_basic_def
proof (rule bind_step)
  show "\<exists>s1. for_each
          (\<lambda>code s.
             if \<not> contains code ''_ERROR_'' then
               record_error e [code, ''in errorcodes but doesn't contain _ERROR_''] no_kwargs s
             else Return s)
          (iter e errorcodes) s = Return s1 \<and> ok_step e not_overlap s s1"
  proof (rule for_each_step[OF _ assms])
    fix code s assume c: "ctx (s::checker) \<noteq> None"
    show "\<exists>s'. (if \<not> contains code ''_ERROR_'' then
               record_error e [code, ''in errorcodes but doesn't contain _ERROR_''] no_kwargs s
             else Return s) = Return s' \<and> ok_step e not_overlap s s'"
      using record_error_step[where P=not_overlap, OF c not_overlap_errorcodes] by (simp add: ok_step_refl)
  qed
next
  fix s1 assume "ok_step e not_overlap s s1"
  then have c1: "ctx s1 \<noteq> None" using assms by (rule ok_step_ctx)
  show "\<exists>s'. for_each
          (\<lambda>code s.
             if contains code ''_ERROR_'' then
               record_error e [code, ''in successcodes but contain _ERROR_''] no_kwargs s
             else Return s)
          (iter e successcodes) s1 = Return s' \<and> ok_step e not_overlap s1 s'"
  proof (rule for_each_step[OF _ c1])
    fix code s assume c: "ctx (s::checker) \<noteq> None"
    show "\<exists>s'. (if contains code ''_ERROR_'' then
               record_error e [code, ''in successcodes but contain _ERROR_''] no_kwargs s
             else Return s) = Return s' \<and> ok_step e not_overlap s s'"
      using record_error_step[where P=not_overlap, OF c not_overlap_successcodes] by (simp add: ok_step_refl)
  qed
qed

lemma closure_step:
  assumes io: "iter_ok e" and fuel: "length (db_types (db e)) + 2 \<le> n"
  shows "\<exists>r d'. ReferencedTypes_getitem n (iter e) (db e) predicate key d = Return (r, d') \<and>
           (\<forall>k. (map_of d' k = Some None) = (map_of d k = Some None)) \<and>
           (map_of d key \<noteq> Some None \<longrightarrow> r \<noteq> None)"
proof -
  from fuel obtain m where n: "n = Suc m" and m: "length (db_types (db e)) < m"
    by (cases n) auto
  have p: "key \<in> fst ` set d \<or> pending (db e) (dict_set d key None) < m"
    using pending_bound[of "db e" "dict_set d key None"] m by simp
  have i: "\<forall>S. finite S \<longrightarrow> set (iter e S) = S" using io by (simp add: iter_ok_def)
  from getitem_returns[OF i p, of predicate]
  obtain r d' where g: "ReferencedTypes_getitem (Suc m) (iter e) (db e) predicate key d = Return (r, d')"
    and st: "refs_step (db e) d d'"
    and r: "map_of d key \<noteq> Some None \<longrightarrow> r \<noteq> None"
    by (elim exE conjE) (rule that)
  from st have "{k. map_of d' k = Some None} = {k. map_of d k = Some None}"
    unfolding refs_step_def by (elim conjE)
  then have "\<forall>k. (map_of d' k = Some None) = (map_of d k = Some None)"
    unfolding set_eq_iff mem_Collect_eq .
  with g r show ?thesis unfolding n by (intro exI conjI)
qed

lemma get_referenced_input_step:
  assumes io: "iter_ok e" and fuel: "length (db_types (db e)) + 2 \<le> n"
  shows "\<exists>r s'. get_referenced_input n e key s = Return (r, s') \<and> ok_step e P s s' \<and>
           (sentinel_free s \<longrightarrow> r \<noteq> None)"
proof -
  from closure_step[OF io fuel, of "is_input (unicode_word e) (conv e)" key "referenced_input_types s"]
  obtain r d' where g: "ReferencedTypes_getitem n (iter e) (db e) (is_input (unicode_word e) (conv e)) key
        (referenced_input_types s) = Return (r, d')"
    and k: "\<forall>k. (map_of d' k = Some None) = (map_of (referenced_input_types s) k = Some None)"
    and r: "map_of (referenced_input_types s) key \<noteq> Some None \<longrightarrow> r \<noteq> None"
    by (elim exE conjE) (rule that)
  let ?s = "s\<lparr>referenced_input_types := d'\<rparr>"
  have a: "get_referenced_input n e key s = Return (r, ?s)"
    using g by (simp add: get_referenced_input_def)
  have "sentinel_free s \<longrightarrow> sentinel_free ?s"
    unfolding sentinel_free_def by (simp add: k)
  then have b: "ok_step e P s ?s" by (simp add: ok_step_def fail_inv_def)
  have c: "sentinel_free s \<longrightarrow> r \<noteq> None" using r by (simp add: sentinel_free_def)
  from a b c show ?thesis by (intro exI conjI)
qed

lemma get_referenced_types_step:
  assumes io: "iter_ok e" and fuel: "length (db_types (db e)) + 2 \<le> n"
  shows "\<exists>r s'. get_referenced_types n e key s = Return (r, s') \<and> ok_step e P s s' \<and>
           (sentinel_free s \<longrightarrow> r \<noteq> None)"
proof -
  from closure_step[OF io fuel, of "is_api_type (conv e)" key "referenced_api_types s"]
  obtain r d' where g: "ReferencedTypes_getitem n (iter e) (db e) (is_api_type (conv e)) key
        (referenced_api_types s) = Return (r, d')"
    and k: "\<forall>k. (map_of d' k = Some None) = (map_of (referenced_api_types s) k = Some None)"
    and r: "map_of (referenced_api_types s) key \<noteq> Some None \<longrightarrow> r \<noteq> None"
    by (elim exE conjE) (rule that)
  let ?s = "s\<lparr>referenced_api_types := d'\<rparr>"
  have a: "get_referenced_types n e key s = Return (r, ?s)"
    using g by (simp add: get_referenced_types_def)
  have "sentinel_free s \<longrightarrow> sentinel_free ?s"
    unfolding sentinel_free_def by (simp add: k)
  then have b: "ok_step e P s ?s" by (simp add: ok_step_def fail_inv_def)
  have c: "sentinel_free s \<longrightarrow> r \<noteq> None" using r by (simp add: sentinel_free_def)
  from a b c show ?thesis by (intro exI conjI)
qed


lemma deep_step:
  assumes io: "iter_ok e" and fuel: "length (db_types (db e)) + 2 \<le> n"
    and c: "ctx s \<noteq> None" and sf: "sentinel_free s"
  shows "\<exists>s'. check_command_return_codes n e cmd_name info successcodes errorcodes codes s = Return s'
           \<and> ok_step e not_overlap s s'"
proof -
  from get_referenced_input_step[OF io fuel, of cmd_name s not_overlap] sf
  obtain ri s1 where g1: "get_referenced_input n e cmd_name s = Return (Some ri, s1)"
    and o1: "ok_step e not_overlap s s1" by auto
  have sf1: "sentinel_free s1" using o1 sf by (simp add: ok_step_def)
  from get_referenced_types_step[OF io fuel, of cmd_name s1 not_overlap] sf1
  obtain rt s2 where g2: "get_referenced_types n e cmd_name s1 = Return (Some rt, s2)"
    and o2: "ok_step e not_overlap s1 s2" by auto
  have c2: "ctx s2 \<noteq> None" using o1 o2 c by (simp add: ok_step_def)
  have "\<exists>s'. check_command_return_codes n e cmd_name info successcodes errorcodes codes s = Return s'
           \<and> ok_step e not_overlap s2 s'"
    unfolding check_command_return_codes_def
    apply (simp add: g1 g2)
    apply (rule bind_step)
     apply (rule for_each_step[OF _ c2])
     apply (auto intro!: record_error_step[where P=not_overlap] simp: ok_step_refl Let_def
        not_overlap_def overlap_message_def)[1]
    apply (rule for_each_step)
     apply (auto intro!: record_error_step[where P=not_overlap] simp: ok_step_refl Let_def
        not_overlap_def overlap_message_def split: option.splits)[1]
    apply (erule ok_step_ctx)
    apply (rule c2)
    done
  with ok_step_trans[OF o1 o2] show ?thesis by (blast intro: ok_step_trans)
qed

lemma prepend_is_prefix:
  "\<exists>p. \<forall>m. prepend_sourceline_to_message e c m kw = p @ m"
proof -
  obtain fn line where fl: "\<And>m. prepend_sourceline_to_message e c m kw =
      (case (fn, line) of
           (None, None) \<Rightarrow> m
         | (None, Some l) \<Rightarrow> ''Line '' @ str_nat l @ '': '' @ m
         | (Some f, None) \<Rightarrow> f @ '': '' @ m
         | (Some f, Some l) \<Rightarrow> f @ '':'' @ str_nat l @ '': '' @ m)"
    unfolding prepend_sourceline_to_message_def Let_def
    by (cases "(if kw_filename kw = None then
               (case (case kw_elem kw of None \<Rightarrow> Some (ctx_elem c) | Some given \<Rightarrow> given) of
                  None \<Rightarrow> (kw_filename kw, None)
                | Some el \<Rightarrow>
                    (case filename (reg e) of
                       Some f \<Rightarrow> if f \<noteq> [] then (Some f, e_sourceline el) else (kw_filename kw, e_sourceline el)
                     | None \<Rightarrow> (kw_filename kw, e_sourceline el)))
             else (kw_filename kw, None))") auto
  show ?thesis
  proof (cases fn; cases line)
    show "fn = None \<Longrightarrow> line = None \<Longrightarrow> ?thesis" using fl by (intro exI[of _ "[]"]) simp
    show "\<And>l. fn = None \<Longrightarrow> line = Some l \<Longrightarrow> ?thesis"
      using fl by (intro exI[of _ "''Line '' @ str_nat (the line) @ '': ''"]) simp
    show "\<And>f. fn = Some f \<Longrightarrow> line = None \<Longrightarrow> ?thesis"
      using fl by (intro exI[of _ "the fn @ '': ''"]) simp
    show "\<And>f l. fn = Some f \<Longrightarrow> line = Some l \<Longrightarrow> ?thesis"
      using fl by (intro exI[of _ "the fn @ '':'' @ str_nat (the line) @ '': ''"]) simp
  qed
qed

lemma prepend_inj:
  "prepend_sourceline_to_message e c m1 kw = prepend_sourceline_to_message e c m2 kw \<Longrightarrow> m1 = m2"
  using prepend_is_prefix[of e c kw] by auto


lemma guarded_record_error_step:
  assumes "ctx s \<noteq> None" and "P (join '' '' args)"
  shows "\<exists>s'. (if b then record_error e args no_kwargs s else Return s) = Return s' \<and>
              ok_step e P s s'"
  using record_error_step[where P=P, OF assms] by (simp add: ok_step_refl)

lemma overlap_record:
  assumes c: "ctx s = Some c"
  shows "\<exists>s'. (if b then record_error e [''Has errorcodes and successcodes that overlap'']
                           no_kwargs s
               else Return s) = Return s' \<and> overlap_step e c b s s'"
  using c by (simp add: record_error_def overlap_step_def overlap_message_def Let_def)

lemma overlap_step_ok: "ctx s = Some c \<Longrightarrow> overlap_step e c b s s' \<Longrightarrow> ok_step e (\<lambda>m. True) s s'"
proof -
  assume c: "ctx s = Some c" and o: "overlap_step e c b s s'"
  have "\<exists>t. record_error e [overlap_message] no_kwargs s = Return t \<and> ok_step e (\<lambda>m. True) s t"
    by (rule record_error_step) (use c in simp_all)
  then have r: "\<not> suppressed c overlap_message \<Longrightarrow>
      ok_step e (\<lambda>m. True) s (s\<lparr>fail := True, errors := add_set (errors s) (entity c)
                     {prepend_sourceline_to_message e c overlap_message no_kwargs}\<rparr>)"
    using c by (simp add: record_error_def Let_def)
  show ?thesis
  proof (cases "b \<and> \<not> suppressed c overlap_message")
    case True
    with o r show ?thesis by (simp add: overlap_step_def)
  next
    case False
    with o show ?thesis by (simp add: overlap_step_def ok_step_refl)
  qed
qed

lemma not_overlap_keeps:
  assumes o: "ok_step e not_overlap s s'" and c: "ctx s = Some c"
  shows "(prepend_sourceline_to_message e c overlap_message no_kwargs \<in> get_or_empty (errors s') x)
       = (prepend_sourceline_to_message e c overlap_message no_kwargs \<in> get_or_empty (errors s) x)"
proof
  assume a: "prepend_sourceline_to_message e c overlap_message no_kwargs \<in> get_or_empty (errors s') x"
  show "prepend_sourceline_to_message e c overlap_message no_kwargs \<in> get_or_empty (errors s) x"
  proof (rule ccontr)
    assume n: "prepend_sourceline_to_message e c overlap_message no_kwargs \<notin> get_or_empty (errors s) x"
    from o a n obtain c' msg where "ctx s = Some c'"
      "prepend_sourceline_to_message e c overlap_message no_kwargs
         = prepend_sourceline_to_message e c' msg no_kwargs" "not_overlap msg"
      unfolding ok_step_def by blast
    with c have "overlap_message = msg" "not_overlap msg" by (auto dest: prepend_inj)
    then show False by (simp add: not_overlap_def)
  qed
next
  assume "prepend_sourceline_to_message e c overlap_message no_kwargs \<in> get_or_empty (errors s) x"
  with o show "prepend_sourceline_to_message e c overlap_message no_kwargs \<in> get_or_empty (errors s') x"
    unfolding ok_step_def by blast
qed

lemma overlap_step_adds:
  assumes o: "overlap_step e c b s s'"
  shows "(prepend_sourceline_to_message e c overlap_message no_kwargs \<in> get_or_empty (errors s') x)
       = (prepend_sourceline_to_message e c overlap_message no_kwargs \<in> get_or_empty (errors s) x
          \<or> (x = entity c \<and> b \<and> \<not> suppressed c overlap_message))"
  using o by (auto simp: overlap_step_def get_or_empty_add_set split: if_splits)

lemma check_command_steps:
  assumes io: "iter_ok e" and fuel: "length (db_types (db e)) + 2 \<le> n"
    and c: "ctx s = Some c" and sf: "sentinel_free s"
  shows "\<exists>s3 s4 s'. check_command n e cmd_name info s = Return s' \<and>
           ok_step e not_overlap s s3 \<and>
           overlap_step e c (set (codes_of (c_successcodes info)) \<inter> set (codes_of (c_errorcodes info)) \<noteq> {}) s3 s4 \<and>
           ok_step e not_overlap s4 s'"
proof -
  let ?ec = "codes_of (c_errorcodes info)"
  let ?sc = "codes_of (c_successcodes info)"
  have c0: "ctx s \<noteq> None" using c by simp
  from check_params_step[OF c0, of e "c_params info"]
  obtain s1 where e1: "check_params e (c_params info) s = Return s1"
    and o1: "ok_step e not_overlap s s1" by blast
  have c1: "ctx s1 = Some c" using o1 c by (simp add: ok_step_def)
  show ?thesis
  proof (cases "?sc = [] \<and> ?ec = []")
    case True
    then have "check_command n e cmd_name info s = Return s1"
      by (simp add: check_command_def e1)
    moreover have "overlap_step e c (set ?sc \<inter> set ?ec \<noteq> {}) s1 s1"
      using True by (simp add: overlap_step_def)
    ultimately show ?thesis using o1 ok_step_refl by blast
  next
    case False
    have n1: "ctx s1 \<noteq> None" using c1 by simp
    from guarded_record_error_step[where P=not_overlap and e=e
        and args="[''Contains a duplicate in errorcodes'']"
        and b="length ?ec \<noteq> card (set ?ec)", OF n1]
    obtain s2 where e2: "(if length ?ec \<noteq> card (set ?ec) then
        record_error e [''Contains a duplicate in errorcodes''] no_kwargs s1 else Return s1) = Return s2"
      and o2: "ok_step e not_overlap s1 s2"
      by (auto simp: not_overlap_def overlap_message_def)
    have n2: "ctx s2 \<noteq> None" using o2 n1 by (rule ok_step_ctx)
    from guarded_record_error_step[where P=not_overlap and e=e
        and args="[''Contains a duplicate in successcodes'']"
        and b="length ?sc \<noteq> card (set ?sc)", OF n2]
    obtain s3 where e3: "(if length ?sc \<noteq> card (set ?sc) then
        record_error e [''Contains a duplicate in successcodes''] no_kwargs s2 else Return s2) = Return s3"
      and o3: "ok_step e not_overlap s2 s3"
      by (auto simp: not_overlap_def overlap_message_def)
    have c3: "ctx s3 = Some c" using o2 o3 c1 by (simp add: ok_step_def)
    from overlap_record[OF c3, of "set ?sc \<inter> set ?ec \<noteq> {}" e]
    obtain s4 where e4: "(if set ?sc \<inter> set ?ec \<noteq> {} then
        record_error e [''Has errorcodes and successcodes that overlap''] no_kwargs s3
        else Return s3) = Return s4"
      and o4: "overlap_step e c (set ?sc \<inter> set ?ec \<noteq> {}) s3 s4" by blast
    have k4: "ok_step e (\<lambda>m. True) s3 s4" using c3 o4 by (rule overlap_step_ok)
    have n4: "ctx s4 \<noteq> None" using k4 c3 by (simp add: ok_step_def)
    from basic_step[OF n4, of e cmd_name info "set ?sc" "set ?ec"]
    obtain s5 where e5: "check_command_return_codes_basic e cmd_name info (set ?sc) (set ?ec) s4 = Return s5"
      and o5: "ok_step e not_overlap s4 s5" by blast
    have n5: "ctx s5 \<noteq> None" using o5 n4 by (rule ok_step_ctx)
    have sf5: "sentinel_free s5"
      using sf o1 o2 o3 k4 o5 by (simp add: ok_step_def)
    from deep_step[OF io fuel n5 sf5, of cmd_name info "set ?sc" "set ?ec" "set ?sc \<union> set ?ec"]
    obtain s6 where e6: "check_command_return_codes n e cmd_name info (set ?sc) (set ?ec)
          (set ?sc \<union> set ?ec) s5 = Return s6"
      and o6: "ok_step e not_overlap s5 s6" by blast
    have "check_command n e cmd_name info s = Return s6"
      unfolding check_command_def Let_def
      using False
      by (simp only: e1 res_bind.simps if_False e2 e3 e4 e5 e6 should_skip_checking_codes_def
          not_False_eq_True if_True)
    moreover have "ok_step e not_overlap s s3"
      using o1 o2 o3 by (blast intro: ok_step_trans)
    moreover have "ok_step e not_overlap s4 s6"
      using o5 o6 by (rule ok_step_trans)
    ultimately show ?thesis using o4 by blast
  qed
qed


section \<open>The overlap check\<close>

text \<open>
  C7, as the specification states it, fails: when the message of the overlap check is
  registered as a suppression for the command, the codes overlap and no overlap error
  is recorded; the only error of the command is the one of the basic check.
\<close>

theorem overlap_suppressed_counterexample:
  "set (codes_of (c_successcodes overlap_cmd)) \<inter> set (codes_of (c_errorcodes overlap_cmd)) \<noteq> {} \<and>
   res_bind (check_command 2 overlap_env ''Cmd'' overlap_cmd
               (set_error_context ''Cmd'' (c_elem overlap_cmd) suppressing_checker))
     (\<lambda>s. Return (fail s, errors s))
   = Return (True, [(''Cmd'', {''E_ERROR_X in successcodes but contain _ERROR_''})])"
  by (simp add: overlap_cmd_def overlap_env_def suppressing_checker_def plain_checker_def
      overlap_message_def codes_of_def check_command_def check_params_def
      check_command_return_codes_basic_def check_command_return_codes_def
      get_referenced_input_def get_referenced_types_def numeral_2_eq_2
      ReferencedTypes_compute_def getMemberElems_def
      should_skip_checking_codes_def set_error_context_def record_error_def suppressed_def
      prepend_sourceline_to_message_def no_kwargs_def get_codes_for_command_and_type_def
      get_or_empty_def Let_def)

text \<open>
  C7, amended: for a command checked in its own error context, with the closures
  computable, \<open>check_command\<close> returns, and afterwards the overlap error is stored for the
  command if and only if the declared error codes and success codes intersect and the
  message is not suppressed for the command (provided the error was not stored before);
  errors are stored as a set, so the error is stored once however many codes overlap,
  and disjoint sets, empty ones included, give no overlap error.
\<close>

theorem overlap_error_iff_overlap_unsuppressed:
  assumes io: "iter_ok e" and fuel: "length (db_types (db e)) + 2 \<le> n"
    and sf: "sentinel_free s0"
    and c: "ctx (set_error_context cmd_name (c_elem info) s0) = Some c"
    and fresh: "prepend_sourceline_to_message e c overlap_message no_kwargs
                  \<notin> get_or_empty (errors s0) cmd_name"
  shows "\<exists>s'. check_command n e cmd_name info (set_error_context cmd_name (c_elem info) s0) = Return s' \<and>
           ((prepend_sourceline_to_message e c overlap_message no_kwargs
               \<in> get_or_empty (errors s') cmd_name) =
            (set (codes_of (c_successcodes info)) \<inter> set (codes_of (c_errorcodes info)) \<noteq> {} \<and>
             \<not> suppressed c overlap_message))"
proof -
  let ?s = "set_error_context cmd_name (c_elem info) s0"
  let ?M = "prepend_sourceline_to_message e c overlap_message no_kwargs"
  let ?b = "set (codes_of (c_successcodes info)) \<inter> set (codes_of (c_errorcodes info)) \<noteq> {}"
  have sf': "sentinel_free ?s" using sf by (simp add: sentinel_free_def set_error_context_def)
  have ent: "entity c = cmd_name" using c by (auto simp: set_error_context_def)
  have err: "errors ?s = errors s0" by (simp add: set_error_context_def)
  from check_command_steps[OF io fuel c sf', of cmd_name info]
  obtain s3 s4 s' where r: "check_command n e cmd_name info ?s = Return s'"
    and o3: "ok_step e not_overlap ?s s3"
    and o4: "overlap_step e c ?b s3 s4"
    and o6: "ok_step e not_overlap s4 s'" by blast
  have c3: "ctx s3 = Some c" using o3 c by (simp add: ok_step_def)
  have c4: "ctx s4 = Some c"
    using overlap_step_ok[OF c3 o4] c3 by (simp add: ok_step_def)
  have "(?M \<in> get_or_empty (errors s') cmd_name) = (?M \<in> get_or_empty (errors s4) cmd_name)"
    by (rule not_overlap_keeps[OF o6 c4])
  also have "\<dots> = (?M \<in> get_or_empty (errors s3) cmd_name \<or>
                    (cmd_name = entity c \<and> ?b \<and> \<not> suppressed c overlap_message))"
    by (rule overlap_step_adds[OF o4])
  also have "(?M \<in> get_or_empty (errors s3) cmd_name) = (?M \<in> get_or_empty (errors ?s) cmd_name)"
    by (rule not_overlap_keeps[OF o3 c])
  finally have "(?M \<in> get_or_empty (errors s') cmd_name) = (?b \<and> \<not> suppressed c overlap_message)"
    using fresh ent err by simp
  with r show ?thesis by blast
qed

lemma overlap_env_iter: "iter_ok overlap_env"
  by (simp add: iter_ok_def overlap_env_def)

theorem overlap_error_iff_overlap_unsuppressed_witness:
  "\<exists>s'. check_command 2 overlap_env ''Cmd'' overlap_cmd
           (set_error_context ''Cmd'' (c_elem overlap_cmd) plain_checker) = Return s' \<and>
        overlap_message \<in> get_or_empty (errors s') ''Cmd''"
proof -
  let ?c = "\<lparr>entity = ''Cmd'', ctx_elem = c_elem overlap_cmd, ctx_name = ''Cmd'',
             entity_suppressions = None\<rparr>"
  have fuel: "length (db_types (db overlap_env)) + 2 \<le> 2"
    by (simp add: overlap_env_def db_types_def)
  have sf: "sentinel_free plain_checker" by (simp add: sentinel_free_def plain_checker_def)
  have c: "ctx (set_error_context ''Cmd'' (c_elem overlap_cmd) plain_checker) = Some ?c"
    by (simp add: set_error_context_def plain_checker_def overlap_cmd_def)
  have m: "prepend_sourceline_to_message overlap_env ?c overlap_message no_kwargs = overlap_message"
    by (simp add: prepend_sourceline_to_message_def no_kwargs_def overlap_env_def overlap_cmd_def)
  have fresh: "prepend_sourceline_to_message overlap_env ?c overlap_message no_kwargs
                  \<notin> get_or_empty (errors plain_checker) ''Cmd''"
    by (simp add: plain_checker_def get_or_empty_def)
  have b: "set (codes_of (c_successcodes overlap_cmd)) \<inter> set (codes_of (c_errorcodes overlap_cmd)) \<noteq> {}"
    by (simp add: overlap_cmd_def codes_of_def)
  have ns: "\<not> suppressed ?c overlap_message" by (simp add: suppressed_def)
  from overlap_error_iff_overlap_unsuppressed[OF overlap_env_iter fuel sf c fresh]
  show ?thesis unfolding m using b ns by blast
qed

section \<open>Input parameters\<close>

lemma startswith_iff: "startswith t p \<longleftrightarrow> (\<exists>post. t = p @ post)"
  by (induction t p rule: startswith.induct) auto

lemma contains_iff: "contains t p \<longleftrightarrow> text_contains t p"
proof (induction t)
  case Nil
  then show ?case by (auto simp: text_contains_def)
next
  case (Cons x xs)
  have "text_contains (x # xs) p \<longleftrightarrow> (\<exists>post. x # xs = p @ post) \<or> text_contains xs p"
  proof
    assume "text_contains (x # xs) p"
    then obtain pre post where e: "x # xs = pre @ p @ post" unfolding text_contains_def by blast
    show "(\<exists>post. x # xs = p @ post) \<or> text_contains xs p"
    proof (cases pre)
      case Nil
      with e show ?thesis by auto
    next
      case (Cons a pre')
      with e have "xs = pre' @ p @ post" by simp
      then show ?thesis unfolding text_contains_def by blast
    qed
  next
    assume "(\<exists>post. x # xs = p @ post) \<or> text_contains xs p"
    then show "text_contains (x # xs) p"
    proof
      assume "\<exists>post. x # xs = p @ post"
      then obtain post where "x # xs = [] @ p @ post" by auto
      then show ?thesis unfolding text_contains_def by blast
    next
      assume "text_contains xs p"
      then obtain pre post where "xs = pre @ p @ post" unfolding text_contains_def by blast
      then have "x # xs = (x # pre) @ p @ post" by simp
      then show ?thesis unfolding text_contains_def by blast
    qed
  qed
  with Cons show ?case by (simp add: startswith_iff)
qed

lemma contains_star: "contains t ''*'' \<longleftrightarrow> pointer_star t"
proof -
  have "text_contains t ''*'' \<longleftrightarrow> CHR ''*'' \<in> set t"
    unfolding text_contains_def by (auto simp: in_set_conv_decomp)
  then show ?thesis by (simp add: contains_iff pointer_star_def)
qed

lemma extent_here:
  "(case xs of [] \<Rightarrow> False | y # ys \<Rightarrow> y \<noteq> CHR '']'' \<and> CHR '']'' \<in> set ys)
   \<longleftrightarrow> (\<exists>mid post. xs = mid @ CHR '']'' # post \<and> mid \<noteq> [] \<and> CHR '']'' \<notin> set mid)"
proof (cases xs)
  case Nil
  then show ?thesis by simp
next
  case (Cons y ys)
  show ?thesis
  proof
    assume "case xs of [] \<Rightarrow> False | y # ys \<Rightarrow> y \<noteq> CHR '']'' \<and> CHR '']'' \<in> set ys"
    with Cons have y: "y \<noteq> CHR '']''" and "CHR '']'' \<in> set ys" by simp_all
    then obtain m post where "ys = m @ CHR '']'' # post" "CHR '']'' \<notin> set m"
      by (auto dest: split_list_first)
    with y Cons have "xs = (y # m) @ CHR '']'' # post \<and> y # m \<noteq> [] \<and> CHR '']'' \<notin> set (y # m)"
      by simp
    then show "\<exists>mid post. xs = mid @ CHR '']'' # post \<and> mid \<noteq> [] \<and> CHR '']'' \<notin> set mid"
      by blast
  next
    assume "\<exists>mid post. xs = mid @ CHR '']'' # post \<and> mid \<noteq> [] \<and> CHR '']'' \<notin> set mid"
    then obtain mid post where e: "xs = mid @ CHR '']'' # post" "mid \<noteq> []" "CHR '']'' \<notin> set mid"
      by blast
    then obtain a m where "mid = a # m" by (cases mid) auto
    with e Cons show "case xs of [] \<Rightarrow> False | y # ys \<Rightarrow> y \<noteq> CHR '']'' \<and> CHR '']'' \<in> set ys"
      by auto
  qed
qed

lemma array_extent_Cons:
  "array_extent (x # xs) \<longleftrightarrow>
     (x = CHR ''['' \<and> (\<exists>mid post. xs = mid @ CHR '']'' # post \<and> mid \<noteq> [] \<and> CHR '']'' \<notin> set mid))
     \<or> array_extent xs"
proof
  assume "array_extent (x # xs)"
  then obtain pre mid post where e: "x # xs = pre @ CHR ''['' # mid @ CHR '']'' # post"
    "mid \<noteq> []" "CHR '']'' \<notin> set mid" unfolding array_extent_def by blast
  show "(x = CHR ''['' \<and> (\<exists>mid post. xs = mid @ CHR '']'' # post \<and> mid \<noteq> [] \<and> CHR '']'' \<notin> set mid))
     \<or> array_extent xs"
  proof (cases pre)
    case Nil
    with e show ?thesis by auto
  next
    case (Cons a pre')
    with e have "xs = pre' @ CHR ''['' # mid @ CHR '']'' # post" by simp
    with e(2,3) show ?thesis unfolding array_extent_def by blast
  qed
next
  assume "(x = CHR ''['' \<and> (\<exists>mid post. xs = mid @ CHR '']'' # post \<and> mid \<noteq> [] \<and> CHR '']'' \<notin> set mid))
     \<or> array_extent xs"
  then show "array_extent (x # xs)"
  proof
    assume "x = CHR ''['' \<and> (\<exists>mid post. xs = mid @ CHR '']'' # post \<and> mid \<noteq> [] \<and> CHR '']'' \<notin> set mid)"
    then obtain mid post where "x # xs = [] @ CHR ''['' # mid @ CHR '']'' # post"
      "mid \<noteq> []" "CHR '']'' \<notin> set mid" by auto
    then show ?thesis unfolding array_extent_def by blast
  next
    assume "array_extent xs"
    then obtain pre mid post where "xs = pre @ CHR ''['' # mid @ CHR '']'' # post"
      "mid \<noteq> []" "CHR '']'' \<notin> set mid" unfolding array_extent_def by blast
    then have "x # xs = (x # pre) @ CHR ''['' # mid @ CHR '']'' # post \<and> mid \<noteq> [] \<and> CHR '']'' \<notin> set mid"
      by simp
    then show ?thesis unfolding array_extent_def by blast
  qed
qed

lemma ARRAY_RE_search_iff: "ARRAY_RE_search t \<longleftrightarrow> array_extent t"
proof (induction t)
  case Nil
  then show ?case by (simp add: array_extent_def)
next
  case (Cons x xs)
  then show ?case by (simp only: ARRAY_RE_search.simps array_extent_Cons extent_here)
qed

lemma array_brackets_Cons:
  "array_brackets (x # xs) \<longleftrightarrow> (x = CHR ''['' \<and> CHR '']'' \<in> set xs) \<or> array_brackets xs"
proof
  assume "array_brackets (x # xs)"
  then obtain pre mid post where e: "x # xs = pre @ CHR ''['' # mid @ CHR '']'' # post"
    unfolding array_brackets_def by blast
  show "(x = CHR ''['' \<and> CHR '']'' \<in> set xs) \<or> array_brackets xs"
  proof (cases pre)
    case Nil
    with e show ?thesis by auto
  next
    case (Cons a pre')
    with e have "xs = pre' @ CHR ''['' # mid @ CHR '']'' # post" by simp
    then show ?thesis unfolding array_brackets_def by blast
  qed
next
  assume "(x = CHR ''['' \<and> CHR '']'' \<in> set xs) \<or> array_brackets xs"
  then show "array_brackets (x # xs)"
  proof
    assume a: "x = CHR ''['' \<and> CHR '']'' \<in> set xs"
    then obtain mid post where "xs = mid @ CHR '']'' # post" by (auto dest: split_list)
    with a have "x # xs = [] @ CHR ''['' # mid @ CHR '']'' # post" by simp
    then show ?thesis unfolding array_brackets_def by blast
  next
    assume "array_brackets xs"
    then obtain pre mid post where "xs = pre @ CHR ''['' # mid @ CHR '']'' # post"
      unfolding array_brackets_def by blast
    then have "x # xs = (x # pre) @ CHR ''['' # mid @ CHR '']'' # post" by simp
    then show ?thesis unfolding array_brackets_def by blast
  qed
qed

lemma brackets_scan_iff: "brackets_scan t \<longleftrightarrow> array_brackets t"
proof (induction t)
  case Nil
  then show ?case by (simp add: array_brackets_def)
next
  case (Cons x xs)
  then show ?case by (simp only: brackets_scan.simps array_brackets_Cons)
qed

lemma array_extent_brackets: "array_extent t \<Longrightarrow> array_brackets t"
  unfolding array_extent_def array_brackets_def by blast

lemma CONST_RE_from_iff:
  "CONST_RE_from uw prev t \<longleftrightarrow>
     (\<exists>pre post. t = pre @ ''const'' @ post \<and>
        (if pre = [] then \<not> prev else \<not> is_word_char uw (last pre)) \<and>
        (post = [] \<or> \<not> is_word_char uw (hd post)))"
proof (induction t arbitrary: prev)
  case Nil
  then show ?case by simp
next
  case (Cons x xs)
  let ?R = "\<lambda>p t. \<exists>pre post. t = pre @ ''const'' @ post \<and>
        (if pre = [] then \<not> p else \<not> is_word_char uw (last pre)) \<and>
        (post = [] \<or> \<not> is_word_char uw (hd post))"
  have here: "(\<not> prev \<and> startswith (x # xs) ''const'' \<and>
       (case drop 5 (x # xs) of [] \<Rightarrow> True | y # ys \<Rightarrow> \<not> is_word_char uw y))
     \<longleftrightarrow> (\<exists>post. x # xs = ''const'' @ post \<and> \<not> prev \<and> (post = [] \<or> \<not> is_word_char uw (hd post)))"
  proof
    assume a: "\<not> prev \<and> startswith (x # xs) ''const'' \<and>
       (case drop 5 (x # xs) of [] \<Rightarrow> True | y # ys \<Rightarrow> \<not> is_word_char uw y)"
    then obtain post where p: "x # xs = ''const'' @ post" by (auto simp: startswith_iff)
    then have "drop 5 (x # xs) = post" by simp
    with a have "post = [] \<or> \<not> is_word_char uw (hd post)" by (cases post) auto
    with a p show "\<exists>post. x # xs = ''const'' @ post \<and> \<not> prev \<and> (post = [] \<or> \<not> is_word_char uw (hd post))"
      by blast
  next
    assume "\<exists>post. x # xs = ''const'' @ post \<and> \<not> prev \<and> (post = [] \<or> \<not> is_word_char uw (hd post))"
    then obtain post where p: "x # xs = ''const'' @ post" "\<not> prev"
      "post = [] \<or> \<not> is_word_char uw (hd post)" by blast
    from p(1) have s: "startswith (x # xs) ''const''" unfolding startswith_iff by blast
    from p(1) have "drop 5 (x # xs) = post" by simp
    with p(3) have "case drop 5 (x # xs) of [] \<Rightarrow> True | y # ys \<Rightarrow> \<not> is_word_char uw y"
      by (cases post) auto
    with s p(2) show "\<not> prev \<and> startswith (x # xs) ''const'' \<and>
       (case drop 5 (x # xs) of [] \<Rightarrow> True | y # ys \<Rightarrow> \<not> is_word_char uw y)" by blast
  qed
  have split: "?R prev (x # xs) \<longleftrightarrow>
      (\<exists>post. x # xs = ''const'' @ post \<and> \<not> prev \<and> (post = [] \<or> \<not> is_word_char uw (hd post)))
      \<or> ?R (is_word_char uw x) xs"
  proof
    assume "?R prev (x # xs)"
    then obtain pre post where e: "x # xs = pre @ ''const'' @ post"
      "if pre = [] then \<not> prev else \<not> is_word_char uw (last pre)"
      "post = [] \<or> \<not> is_word_char uw (hd post)" by blast
    show "(\<exists>post. x # xs = ''const'' @ post \<and> \<not> prev \<and> (post = [] \<or> \<not> is_word_char uw (hd post)))
      \<or> ?R (is_word_char uw x) xs"
    proof (cases pre)
      case Nil
      with e show ?thesis by auto
    next
      case (Cons a pre')
      with e(1) have x: "a = x" "xs = pre' @ ''const'' @ post" by simp_all
      have "if pre' = [] then \<not> is_word_char uw x else \<not> is_word_char uw (last pre')"
        using e(2) Cons x(1) by (auto split: if_splits)
      with x(2) e(3) have "?R (is_word_char uw x) xs" by blast
      then show ?thesis by blast
    qed
  next
    assume "(\<exists>post. x # xs = ''const'' @ post \<and> \<not> prev \<and> (post = [] \<or> \<not> is_word_char uw (hd post)))
      \<or> ?R (is_word_char uw x) xs"
    then show "?R prev (x # xs)"
    proof
      assume "\<exists>post. x # xs = ''const'' @ post \<and> \<not> prev \<and> (post = [] \<or> \<not> is_word_char uw (hd post))"
      then obtain post where "x # xs = [] @ ''const'' @ post"
        "if ([]::string) = [] then \<not> prev else \<not> is_word_char uw (last [])"
        "post = [] \<or> \<not> is_word_char uw (hd post)" by auto
      then show ?thesis by blast
    next
      assume "?R (is_word_char uw x) xs"
      then obtain pre post where e: "xs = pre @ ''const'' @ post"
        "if pre = [] then \<not> is_word_char uw x else \<not> is_word_char uw (last pre)"
        "post = [] \<or> \<not> is_word_char uw (hd post)" by blast
      have "x # xs = (x # pre) @ ''const'' @ post" using e(1) by simp
      moreover have "if x # pre = [] then \<not> prev else \<not> is_word_char uw (last (x # pre))"
        using e(2) by (auto split: if_splits)
      ultimately show ?thesis using e(3) by blast
    qed
  qed
  have "CONST_RE_from uw prev (x # xs) \<longleftrightarrow>
      (\<not> prev \<and> startswith (x # xs) ''const'' \<and>
       (case drop 5 (x # xs) of [] \<Rightarrow> True | y # ys \<Rightarrow> \<not> is_word_char uw y))
      \<or> CONST_RE_from uw (is_word_char uw x) xs" by simp
  also have "\<dots> \<longleftrightarrow>
      (\<exists>post. x # xs = ''const'' @ post \<and> \<not> prev \<and> (post = [] \<or> \<not> is_word_char uw (hd post)))
      \<or> ?R (is_word_char uw x) xs"
    unfolding here Cons.IH ..
  also have "\<dots> \<longleftrightarrow> ?R prev (x # xs)" using split by blast
  finally show ?case .
qed

lemma CONST_RE_search_iff: "CONST_RE_search uw t \<longleftrightarrow> const_word uw t"
  unfolding CONST_RE_search_def const_word_def CONST_RE_from_iff
  by (auto split: if_splits)


lemma is_input_text:
  "is_input uw cv member =
     (text_contains (m_text member) (type_prefix cv) \<and>
      (const_word uw (m_text member) \<or>
       (\<not> pointer_star (m_text member) \<and> \<not> array_extent (m_text member))))"
  by (auto simp: is_input_def Let_def contains_iff CONST_RE_search_iff
      contains_star[unfolded contains_iff] ARRAY_RE_search_iff)

text \<open>
  C8, as the specification states it, fails: the prefix is looked for in the whole text
  of the member, so a parameter of type \<open>uint32_t\<close> named \<open>pVkCount\<close> is an input.
\<close>

theorem is_input_declared_type_counterexample:
  "is_input (\<lambda>c. False) vk_conventions count_param \<and>
   \<not> is_input_spec (\<lambda>c. False) vk_conventions count_param"
  by (simp add: is_input_def is_input_spec_def declared_type_in_namespace_def vk_conventions_def
      count_param_def CONST_RE_search_def is_word_char_def)

text \<open>
  C8, amended. Whatever the word characters beyond ASCII are: for a member whose text
  has no pair of brackets without an extent between them, \<open>is_input\<close> is true exactly
  when the text of the member contains the type prefix of the API, and the text has
  the word \<open>const\<close> or has neither a star nor a pair of brackets. And for every member:
  a text without the word \<open>const\<close> that has a star, or a pair of brackets with an extent,
  is an output; a text without the type prefix is not an input; a text with the type
  prefix and the word \<open>const\<close> is an input; and so is a text with the type prefix,
  without a star and without a pair of brackets.
\<close>

theorem is_input_by_member_text:
  "((array_brackets (m_text member) \<longrightarrow> array_extent (m_text member)) \<longrightarrow>
      is_input uw cv member =
        (text_contains (m_text member) (type_prefix cv) \<and>
         (const_word uw (m_text member) \<or>
          (\<not> pointer_star (m_text member) \<and> \<not> array_brackets (m_text member))))) \<and>
   (\<not> const_word uw (m_text member) \<and>
    (pointer_star (m_text member) \<or> array_extent (m_text member))
      \<longrightarrow> \<not> is_input uw cv member) \<and>
   (\<not> text_contains (m_text member) (type_prefix cv) \<longrightarrow> \<not> is_input uw cv member) \<and>
   (text_contains (m_text member) (type_prefix cv) \<and> const_word uw (m_text member)
      \<longrightarrow> is_input uw cv member) \<and>
   (text_contains (m_text member) (type_prefix cv) \<and>
    \<not> pointer_star (m_text member) \<and> \<not> array_brackets (m_text member)
      \<longrightarrow> is_input uw cv member)"
proof (intro conjI impI)
  assume a: "array_brackets (m_text member) \<longrightarrow> array_extent (m_text member)"
  have "array_brackets (m_text member) = array_extent (m_text member)"
    using a array_extent_brackets by blast
  then show "is_input uw cv member =
        (text_contains (m_text member) (type_prefix cv) \<and>
         (const_word uw (m_text member) \<or>
          (\<not> pointer_star (m_text member) \<and> \<not> array_brackets (m_text member))))"
    by (simp only: is_input_text)
next
  assume "\<not> const_word uw (m_text member) \<and>
    (pointer_star (m_text member) \<or> array_extent (m_text member))"
  then show "\<not> is_input uw cv member" unfolding is_input_text by blast
next
  assume "\<not> text_contains (m_text member) (type_prefix cv)"
  then show "\<not> is_input uw cv member" unfolding is_input_text by blast
next
  assume "text_contains (m_text member) (type_prefix cv) \<and> const_word uw (m_text member)"
  then show "is_input uw cv member" unfolding is_input_text by blast
next
  assume "text_contains (m_text member) (type_prefix cv) \<and>
    \<not> pointer_star (m_text member) \<and> \<not> array_brackets (m_text member)"
  then show "is_input uw cv member"
    unfolding is_input_text using array_extent_brackets by blast
qed

theorem is_input_by_member_text_witness:
  "(const_word (\<lambda>c. False) ''const VkFoo* pFoo'' \<and>
    is_input (\<lambda>c. False) vk_conventions (text_member ''VkFoo'' ''pFoo'' ''const VkFoo* pFoo'')) \<and>
   (\<not> const_word (\<lambda>c. False) ''VkFoo* pFoo'' \<and> pointer_star ''VkFoo* pFoo'' \<and>
    \<not> is_input (\<lambda>c. False) vk_conventions (text_member ''VkFoo'' ''pFoo'' ''VkFoo* pFoo'')) \<and>
   (\<not> const_word (\<lambda>c. False) ''VkFoo foo[4]'' \<and> array_extent ''VkFoo foo[4]'' \<and>
    \<not> is_input (\<lambda>c. False) vk_conventions (text_member ''VkFoo'' ''foo'' ''VkFoo foo[4]'')) \<and>
   (\<not> array_brackets ''VkFoo foo'' \<and> \<not> pointer_star ''VkFoo foo'' \<and>
    is_input (\<lambda>c. False) vk_conventions (text_member ''VkFoo'' ''foo'' ''VkFoo foo'')) \<and>
   (\<not> array_brackets ''uint32_t count'' \<and> \<not> text_contains ''uint32_t count'' ''Vk'' \<and>
    \<not> is_input (\<lambda>c. False) vk_conventions (text_member ''uint32_t'' ''count'' ''uint32_t count'')) \<and>
   (\<not> const_word (\<lambda>c. True) (''VkFoo* '' @ [CHR 0xE9] @ ''const'') \<and>
    pointer_star (''VkFoo* '' @ [CHR 0xE9] @ ''const'') \<and>
    \<not> is_input (\<lambda>c. True) vk_conventions
        (text_member ''VkFoo'' ([CHR 0xE9] @ ''const'') (''VkFoo* '' @ [CHR 0xE9] @ ''const'')))"
proof -
  let ?vk = vk_conventions
  have p: "type_prefix ?vk = ''Vk''" by (simp add: vk_conventions_def)
  have t: "\<And>a b c. m_text (text_member a b c) = c" by (simp add: text_member_def)
  note ev = CONST_RE_search_iff[symmetric] contains_star[symmetric] ARRAY_RE_search_iff[symmetric]
    brackets_scan_iff[symmetric] contains_iff[symmetric] CONST_RE_search_def is_word_char_def
  let ?m1 = "text_member ''VkFoo'' ''pFoo'' ''const VkFoo* pFoo''"
  have c1: "const_word (\<lambda>c. False) ''const VkFoo* pFoo''" by (simp add: ev)
  have b1: "array_brackets (m_text ?m1) \<longrightarrow> array_extent (m_text ?m1)"
    by (simp add: t ev)
  have x1: "text_contains ''const VkFoo* pFoo'' ''Vk''" by (simp add: ev)
  have r1: "is_input (\<lambda>c. False) ?vk ?m1"
    using conjunct1[OF is_input_by_member_text[of ?m1 "\<lambda>c. False" ?vk]] b1 c1 x1 by (simp add: t p)
  let ?m2 = "text_member ''VkFoo'' ''pFoo'' ''VkFoo* pFoo''"
  have c2: "\<not> const_word (\<lambda>c. False) ''VkFoo* pFoo''" by (simp add: ev)
  have s2: "pointer_star ''VkFoo* pFoo''" by (simp add: ev)
  have r2: "\<not> is_input (\<lambda>c. False) ?vk ?m2"
    using conjunct1[OF conjunct2[OF is_input_by_member_text[of ?m2 "\<lambda>c. False" ?vk]]] c2 s2 by (simp add: t)
  let ?m3 = "text_member ''VkFoo'' ''foo'' ''VkFoo foo[4]''"
  have c3: "\<not> const_word (\<lambda>c. False) ''VkFoo foo[4]''" by (simp add: ev)
  have s3: "array_extent ''VkFoo foo[4]''" by (simp add: ev)
  have r3: "\<not> is_input (\<lambda>c. False) ?vk ?m3"
    using conjunct1[OF conjunct2[OF is_input_by_member_text[of ?m3 "\<lambda>c. False" ?vk]]] c3 s3 by (simp add: t)
  let ?m4 = "text_member ''VkFoo'' ''foo'' ''VkFoo foo''"
  have b4: "\<not> array_brackets ''VkFoo foo''" by (simp add: ev)
  have s4: "\<not> pointer_star ''VkFoo foo''" by (simp add: ev)
  have x4: "text_contains ''VkFoo foo'' ''Vk''" by (simp add: ev)
  have r4: "is_input (\<lambda>c. False) ?vk ?m4"
    using conjunct1[OF is_input_by_member_text[of ?m4 "\<lambda>c. False" ?vk]] b4 s4 x4 by (simp add: t p)
  let ?m5 = "text_member ''uint32_t'' ''count'' ''uint32_t count''"
  have b5: "\<not> array_brackets ''uint32_t count''" by (simp add: ev)
  have x5: "\<not> text_contains ''uint32_t count'' ''Vk''" by (simp add: ev)
  have r5: "\<not> is_input (\<lambda>c. False) ?vk ?m5"
    using conjunct1[OF is_input_by_member_text[of ?m5 "\<lambda>c. False" ?vk]] b5 x5 by (simp add: t p)
  let ?t6 = "''VkFoo* '' @ [CHR 0xE9] @ ''const''"
  let ?m6 = "text_member ''VkFoo'' ([CHR 0xE9] @ ''const'') ?t6"
  have c6: "\<not> const_word (\<lambda>c. True) ?t6" by (simp add: ev)
  have s6: "pointer_star ?t6" by (simp add: ev)
  have r6: "\<not> is_input (\<lambda>c. True) ?vk ?m6"
    using conjunct1[OF conjunct2[OF is_input_by_member_text[of ?m6 "\<lambda>c. True" ?vk]]] c6 s6 by (simp add: t)
  from c1 r1 c2 s2 r2 c3 s3 r3 b4 s4 r4 b5 x5 r5 c6 s6 r6 show ?thesis by blast
qed

text \<open>
  Outside the amended sentence: a pair of brackets with nothing between them is not
  taken for an array, and a member that has one, and no star, is an input.
\<close>

lemma is_input_empty_extent:
  "array_brackets ''VkFoo foo[]'' \<and> \<not> array_extent ''VkFoo foo[]'' \<and>
   is_input (\<lambda>c. False) vk_conventions (text_member ''VkFoo'' ''foo'' ''VkFoo foo[]'')"
  by (simp add: brackets_scan_iff[symmetric] ARRAY_RE_search_iff[symmetric] is_input_def
      text_member_def vk_conventions_def CONST_RE_search_def is_word_char_def)

section \<open>The failure flag\<close>

lemma for_each_inv:
  assumes "\<And>x s. x \<in> set xs \<Longrightarrow> I s \<Longrightarrow> \<exists>s'. body x s = Return s' \<and> I s'"
    and "I s"
  shows "\<exists>s'. for_each body xs s = Return s' \<and> I s'"
  using assms
proof (induction xs arbitrary: s)
  case Nil
  then show ?case by simp
next
  case (Cons x xs)
  from Cons.prems(1)[of x s] Cons.prems(2)
  obtain s1 where b: "body x s = Return s1" and i1: "I s1" by auto
  from Cons.IH[of s1] Cons.prems(1) i1
  obtain s' where "for_each body xs s1 = Return s'" "I s'" by auto
  with b show ?case by auto
qed

text \<open>
  What is kept from one entity to the next in a run: the two properties of the checker,
  and the table of suppressions \<open>T\<close>.
\<close>

lemma set_error_context_inv:
  "sentinel_free s \<and> fail_inv s \<and> suppressions s = T \<Longrightarrow>
   sentinel_free (set_error_context x el s) \<and> fail_inv (set_error_context x el s) \<and>
   suppressions (set_error_context x el s) = T \<and>
   ctx (set_error_context x el s) \<noteq> None"
  by (simp add: sentinel_free_def fail_inv_def set_error_context_def)

lemma ok_step_inv:
  "ok_step e P s s' \<Longrightarrow> sentinel_free s \<and> fail_inv s \<and> suppressions s = T \<Longrightarrow>
   sentinel_free s' \<and> fail_inv s' \<and> suppressions s' = T"
  by (simp add: ok_step_def)

lemma check_command_run:
  assumes io: "iter_ok e" and fuel: "length (db_types (db e)) + 2 \<le> n"
    and i: "sentinel_free s \<and> fail_inv s \<and> suppressions s = T"
  shows "\<exists>s'. check_command n e cmd_name info (set_error_context cmd_name el s) = Return s' \<and>
              sentinel_free s' \<and> fail_inv s' \<and> suppressions s' = T"
proof -
  let ?s = "set_error_context cmd_name el s"
  from set_error_context_inv[OF i, of cmd_name el]
  have i0: "sentinel_free ?s \<and> fail_inv ?s \<and> suppressions ?s = T" and "ctx ?s \<noteq> None"
    by simp_all
  then obtain c where c: "ctx ?s = Some c" by auto
  from i0 have sf: "sentinel_free ?s" by simp
  from check_command_steps[OF io fuel c sf, of cmd_name info]
  obtain s3 s4 s' where r: "check_command n e cmd_name info ?s = Return s'"
    and o3: "ok_step e not_overlap ?s s3"
    and o4: "overlap_step e c (set (codes_of (c_successcodes info)) \<inter> set (codes_of (c_errorcodes info)) \<noteq> {}) s3 s4"
    and o6: "ok_step e not_overlap s4 s'" by blast
  have c3: "ctx s3 = Some c" using o3 c by (simp add: ok_step_def)
  have i3: "sentinel_free s3 \<and> fail_inv s3 \<and> suppressions s3 = T" using o3 i0 by (rule ok_step_inv)
  have i4: "sentinel_free s4 \<and> fail_inv s4 \<and> suppressions s4 = T"
    using overlap_step_ok[OF c3 o4] i3 by (rule ok_step_inv)
  have "sentinel_free s' \<and> fail_inv s' \<and> suppressions s' = T" using o6 i4 by (rule ok_step_inv)
  with r show ?thesis by blast
qed

lemma check_type_run:
  assumes i: "sentinel_free s \<and> fail_inv s \<and> suppressions s = T"
  shows "\<exists>s'. check_type e type_name info cat (set_error_context type_name el s) = Return s' \<and>
              sentinel_free s' \<and> fail_inv s' \<and> suppressions s' = T"
proof -
  let ?s = "set_error_context type_name el s"
  from set_error_context_inv[OF i, of type_name el]
  have i0: "sentinel_free ?s \<and> fail_inv ?s \<and> suppressions ?s = T" and c: "ctx ?s \<noteq> None"
    by simp_all
  from check_type_step[OF c, of e type_name info cat]
  obtain s' where r: "check_type e type_name info cat ?s = Return s'"
    and o: "ok_step e not_overlap ?s s'" by blast
  from ok_step_inv[OF o i0] r show ?thesis by blast
qed

lemma check_extension_run:
  assumes i: "sentinel_free s \<and> fail_inv s \<and> suppressions s = T"
  shows "\<exists>s'. check_extension e ext_name info (set_error_context ext_name el s) = Return s' \<and>
              sentinel_free s' \<and> fail_inv s' \<and> suppressions s' = T"
  using set_error_context_inv[OF i, of ext_name el] by (simp add: check_extension_def)

lemma check_entities_run:
  assumes io: "iter_ok e" and fuel: "length (db_types (db e)) + 2 \<le> n"
    and i: "sentinel_free s \<and> fail_inv s \<and> suppressions s = T"
  shows "\<exists>s'. check_entities n e s = Return s' \<and> sentinel_free s' \<and> fail_inv s' \<and>
              suppressions s' = T"
proof -
  let ?I = "\<lambda>s. sentinel_free s \<and> fail_inv s \<and> suppressions s = T"
  have a: "\<exists>s1. for_each
          (\<lambda>(cmd_name, info) s.
             check_command n e cmd_name info (set_error_context cmd_name (c_elem info) s))
          (cmddict (reg e)) s = Return s1 \<and> ?I s1"
    by (rule for_each_inv[where I="?I", OF _ i]) (auto intro: check_command_run[OF io fuel])
  then obtain s1 where a1: "for_each
          (\<lambda>(cmd_name, info) s.
             check_command n e cmd_name info (set_error_context cmd_name (c_elem info) s))
          (cmddict (reg e)) s = Return s1" and i1: "?I s1" by blast
  have "\<exists>s2. for_each
          (\<lambda>(type_name, info) s.
             case t_category info of
               None \<Rightarrow> Return s
             | Some cat \<Rightarrow>
                 if cat = [] then Return s
                 else check_type e type_name info cat
                        (set_error_context type_name (t_elem info) s))
          (typedict (reg e)) s1 = Return s2 \<and> ?I s2"
    by (rule for_each_inv[where I="?I", OF _ i1]) (auto intro: check_type_run split: option.splits)
  then obtain s2 where a2: "for_each
          (\<lambda>(type_name, info) s.
             case t_category info of
               None \<Rightarrow> Return s
             | Some cat \<Rightarrow>
                 if cat = [] then Return s
                 else check_type e type_name info cat
                        (set_error_context type_name (t_elem info) s))
          (typedict (reg e)) s1 = Return s2" and i2: "?I s2" by blast
  have "\<exists>s3. for_each
          (\<lambda>(ext_name, info) s.
             if x_supported info \<noteq> Some (xml_api_name (conv e)) then Return s
             else check_extension e ext_name info
                    (set_error_context ext_name (x_elem info) s))
          (extdict (reg e)) s2 = Return s3 \<and> ?I s3"
    by (rule for_each_inv[where I="?I", OF _ i2])
       (auto intro: check_extension_run)
  then obtain s3 where a3: "for_each
          (\<lambda>(ext_name, info) s.
             if x_supported info \<noteq> Some (xml_api_name (conv e)) then Return s
             else check_extension e ext_name info
                    (set_error_context ext_name (x_elem info) s))
          (extdict (reg e)) s2 = Return s3" and i3: "?I s3" by blast
  have "check_entities n e s = Return s3"
    unfolding check_entities_def by (simp only: a1 a2 a3 res_bind.simps)
  with i3 show ?thesis by blast
qed

lemma init_inv:
  assumes "XMLChecker_init m e manual forward_only reverse_only supp = Return c0"
  shows "sentinel_free c0 \<and> fail_inv c0 \<and> suppressions c0 = DictOfStringSets supp"
proof (cases "ancestors_dict m (reg e)")
  case (Return a)
  with assms show ?thesis
    by (auto simp: XMLChecker_init_def Let_def sentinel_free_def fail_inv_def get_or_empty_def)
qed (use assms in \<open>simp_all add: XMLChecker_init_def Let_def\<close>)

text \<open>
  The suppressions in force after \<open>set_error_context\<close>: those that the table holds under
  the name of the element. Messages are stored under the entity.
\<close>

lemma set_error_context_ctx:
  "\<exists>c. ctx (set_error_context x el s) = Some c \<and> entity c = x \<and> ctx_elem c = el \<and>
       (\<forall>m. suppressed c m = (m \<in> get_or_empty (suppressions s) (e_name el)))"
  by (auto simp: set_error_context_def suppressed_def get_or_empty_def split: option.splits)

lemma suppressing_init:
  "XMLChecker_init 1 overlap_env [] [] [] [(''Cmd'', Str overlap_message)] = Return suppressing_checker"
  by (simp add: XMLChecker_init_def overlap_env_def suppressing_checker_def plain_checker_def
      ancestors_dict_def handle_types_def DictOfStringSets_def add_def Let_def
      compute_type_to_codes_def compute_codes_requiring_type_def add_extra_codes_def
      HandleParents_def descendants_of_def)


text \<open>
  C9: a checker as \<open>__init__\<close> builds it has no error, a clear failure flag, and the
  suppressions it was given as its table. A run of \<open>check\<close> on it returns, with the
  failure flag true exactly when some error is stored, and the table as it was. In the
  error context that \<open>set_error_context\<close> sets for an entity and its element,
  \<open>record_error\<close> with a message that the table holds for the name of the element leaves
  the checker as it was; with any other message it sets the flag and stores the
  decorated message for the entity, and leaves the table as it was. The same holds in
  any error context, of the suppressions of the context. \<open>record_warning\<close> returns in
  every error context, and changes neither the flag nor the errors.
\<close>

theorem fail_flag_iff_error_recorded:
  assumes io: "iter_ok e" and fuel: "length (db_types (db e)) + 2 \<le> n"
    and init: "XMLChecker_init m e manual forward_only reverse_only supp = Return c0"
  shows "errors c0 = [] \<and> \<not> fail c0 \<and> suppressions c0 = DictOfStringSets supp \<and>
         (\<exists>s out. check n e c0 = Return (s, out) \<and>
                  fail s = (\<exists>x. get_or_empty (errors s) x \<noteq> {}) \<and>
                  suppressions s = DictOfStringSets supp) \<and>
         (\<forall>x el s args kw.
              join '' '' args \<in> get_or_empty (suppressions s) (e_name el) \<longrightarrow>
              record_error e args kw (set_error_context x el s) = Return (set_error_context x el s)) \<and>
         (\<forall>x el s args kw.
              join '' '' args \<notin> get_or_empty (suppressions s) (e_name el) \<longrightarrow>
              (\<exists>c s'. ctx (set_error_context x el s) = Some c \<and>
                    record_error e args kw (set_error_context x el s) = Return s' \<and>
                    fail s' \<and> suppressions s' = suppressions s \<and>
                    prepend_sourceline_to_message e c (join '' '' args) kw
                      \<in> get_or_empty (errors s') x)) \<and>
         (\<forall>s c args kw. ctx s = Some c \<longrightarrow> suppressed c (join '' '' args) \<longrightarrow>
              record_error e args kw s = Return s) \<and>
         (\<forall>s c args kw. ctx s = Some c \<longrightarrow> \<not> suppressed c (join '' '' args) \<longrightarrow>
              (\<exists>s'. record_error e args kw s = Return s' \<and> fail s' \<and>
                    prepend_sourceline_to_message e c (join '' '' args) kw
                      \<in> get_or_empty (errors s') (entity c))) \<and>
         (\<forall>s c args kw. ctx s = Some c \<longrightarrow> (\<exists>s'. record_warning e args kw s = Return s')) \<and>
         (\<forall>s s' args kw. record_warning e args kw s = Return s' \<longrightarrow>
              fail s' = fail s \<and> errors s' = errors s)"
proof -
  have start: "errors c0 = [] \<and> \<not> fail c0"
  proof (cases "ancestors_dict m (reg e)")
    case (Return a)
    with init show ?thesis by (auto simp: XMLChecker_init_def Let_def)
  qed (use init in \<open>simp_all add: XMLChecker_init_def Let_def\<close>)
  from init_inv[OF init] have table: "suppressions c0 = DictOfStringSets supp" by simp
  from check_entities_run[OF io fuel init_inv[OF init]]
  obtain s where r: "check_entities n e c0 = Return s" and f: "fail_inv s"
    and t: "suppressions s = DictOfStringSets supp" by blast
  have run: "\<exists>s out. check n e c0 = Return (s, out) \<and>
                  fail s = (\<exists>x. get_or_empty (errors s) x \<noteq> {}) \<and>
                  suppressions s = DictOfStringSets supp"
    using r f t by (simp add: check_def fail_inv_def)
  have dropped: "record_error e args kw s = Return s"
    if "ctx s = Some c" "suppressed c (join '' '' args)" for s c args kw
    using that by (simp add: record_error_def)
  have stored: "\<exists>s'. record_error e args kw s = Return s' \<and> fail s' \<and>
                    suppressions s' = suppressions s \<and>
                    prepend_sourceline_to_message e c (join '' '' args) kw
                      \<in> get_or_empty (errors s') (entity c)"
    if "ctx s = Some c" "\<not> suppressed c (join '' '' args)" for s c args kw
    using that by (simp add: record_error_def Let_def get_or_empty_add_set)
  have stored': "\<exists>s'. record_error e args kw s = Return s' \<and> fail s' \<and>
                    prepend_sourceline_to_message e c (join '' '' args) kw
                      \<in> get_or_empty (errors s') (entity c)"
    if "ctx s = Some c" "\<not> suppressed c (join '' '' args)" for s c args kw
    using stored[OF that] by blast
  have dropped_ctx: "record_error e args kw (set_error_context x el s) = Return (set_error_context x el s)"
    if "join '' '' args \<in> get_or_empty (suppressions s) (e_name el)" for x el s args kw
  proof -
    from set_error_context_ctx[of x el s] obtain c
      where c: "ctx (set_error_context x el s) = Some c"
        and m: "\<forall>m. suppressed c m = (m \<in> get_or_empty (suppressions s) (e_name el))" by blast
    from m that have "suppressed c (join '' '' args)" by simp
    with c show ?thesis by (rule dropped)
  qed
  have stored_ctx: "\<exists>c s'. ctx (set_error_context x el s) = Some c \<and>
                    record_error e args kw (set_error_context x el s) = Return s' \<and>
                    fail s' \<and> suppressions s' = suppressions s \<and>
                    prepend_sourceline_to_message e c (join '' '' args) kw
                      \<in> get_or_empty (errors s') x"
    if "join '' '' args \<notin> get_or_empty (suppressions s) (e_name el)" for x el s args kw
  proof -
    from set_error_context_ctx[of x el s] obtain c
      where c: "ctx (set_error_context x el s) = Some c" and x: "entity c = x"
        and m: "\<forall>m. suppressed c m = (m \<in> get_or_empty (suppressions s) (e_name el))" by blast
    from m that have "\<not> suppressed c (join '' '' args)" by simp
    from stored[OF c this, where kw=kw]
    obtain s' where "record_error e args kw (set_error_context x el s) = Return s'" "fail s'"
      "suppressions s' = suppressions (set_error_context x el s)"
      "prepend_sourceline_to_message e c (join '' '' args) kw \<in> get_or_empty (errors s') (entity c)"
      by blast
    moreover have "suppressions (set_error_context x el s) = suppressions s"
      by (simp add: set_error_context_def)
    ultimately show ?thesis using c x by auto
  qed
  have returns: "\<exists>s'. record_warning e args kw s = Return s'"
    if "ctx s = Some c" for s c args kw
    using that by (simp add: record_warning_def Let_def)
  have warning: "fail s' = fail s \<and> errors s' = errors s"
    if "record_warning e args kw s = Return s'" for s s' args kw
    using that by (auto simp: record_warning_def Let_def split: option.splits if_splits)
  show ?thesis
    apply (intro conjI allI impI)
    subgoal using start by simp
    subgoal using start by simp
    subgoal by (rule table)
    subgoal by (rule run)
    subgoal by (rule dropped_ctx)
    subgoal by (rule stored_ctx)
    subgoal by (rule dropped)
    subgoal by (rule stored')
    subgoal by (rule returns)
    subgoal using warning by blast
    subgoal using warning by blast
    done
qed

theorem fail_flag_iff_error_recorded_witness:
  "\<exists>s out. XMLChecker_init 1 overlap_env [] [] [] [(''Cmd'', Str overlap_message)]
              = Return suppressing_checker \<and>
     check 2 overlap_env suppressing_checker = Return (s, out) \<and>
     fail s = (\<exists>x. get_or_empty (errors s) x \<noteq> {}) \<and>
     suppressions s = [(''Cmd'', {overlap_message})] \<and>
     record_error overlap_env [overlap_message] no_kwargs
         (set_error_context ''Cmd'' (c_elem overlap_cmd) suppressing_checker)
       = Return (set_error_context ''Cmd'' (c_elem overlap_cmd) suppressing_checker) \<and>
     (\<exists>s'. record_error overlap_env [''Has'', ''no'', ''codes''] no_kwargs
               (set_error_context ''Cmd'' (c_elem overlap_cmd) suppressing_checker) = Return s' \<and>
           fail s' \<and> ''Has no codes'' \<in> get_or_empty (errors s') ''Cmd'')"
proof -
  let ?S = "set_error_context ''Cmd'' (c_elem overlap_cmd) suppressing_checker"
  let ?supp = "[(''Cmd'', Str overlap_message)]"
  have fuel: "length (db_types (db overlap_env)) + 2 \<le> 2"
    by (simp add: overlap_env_def db_types_def)
  note inst = fail_flag_iff_error_recorded[OF overlap_env_iter fuel suppressing_init]
  note c4 = inst[THEN conjunct2, THEN conjunct2, THEN conjunct2, THEN conjunct1]
  note c5 = inst[THEN conjunct2, THEN conjunct2, THEN conjunct2, THEN conjunct2, THEN conjunct1]
  note c6 = inst[THEN conjunct2, THEN conjunct2, THEN conjunct2, THEN conjunct2, THEN conjunct2,
      THEN conjunct1]
  have tab: "DictOfStringSets ?supp = [(''Cmd'', {overlap_message})]"
    by (simp add: DictOfStringSets_def add_def)
  from c4 obtain s out where run: "check 2 overlap_env suppressing_checker = Return (s, out)"
    "fail s = (\<exists>x. get_or_empty (errors s) x \<noteq> {})"
    "suppressions s = DictOfStringSets ?supp" by (elim exE conjE)
  have inn: "join '' '' [overlap_message]
      \<in> get_or_empty (suppressions suppressing_checker) (e_name (c_elem overlap_cmd))"
    by (simp add: suppressing_checker_def plain_checker_def overlap_cmd_def get_or_empty_def)
  have drop: "record_error overlap_env [overlap_message] no_kwargs ?S = Return ?S"
    by (rule c5[rule_format, OF inn])
  have out: "join '' '' [''Has'', ''no'', ''codes'']
      \<notin> get_or_empty (suppressions suppressing_checker) (e_name (c_elem overlap_cmd))"
    by (simp add: suppressing_checker_def plain_checker_def overlap_cmd_def get_or_empty_def
        overlap_message_def)
  from c6[rule_format, OF out, of "''Cmd''" no_kwargs]
  obtain c s' where c: "ctx ?S = Some c"
    and r: "record_error overlap_env [''Has'', ''no'', ''codes''] no_kwargs ?S = Return s'"
    and f: "fail s'"
    and m: "prepend_sourceline_to_message overlap_env c (join '' '' [''Has'', ''no'', ''codes'']) no_kwargs
              \<in> get_or_empty (errors s') ''Cmd''" by (elim exE conjE)
  from c have "ctx_elem c = c_elem overlap_cmd" by (auto simp: set_error_context_def)
  then have "prepend_sourceline_to_message overlap_env c (join '' '' [''Has'', ''no'', ''codes'']) no_kwargs
               = ''Has no codes''"
    by (simp add: prepend_sourceline_to_message_def no_kwargs_def overlap_env_def overlap_cmd_def)
  with m have m': "''Has no codes'' \<in> get_or_empty (errors s') ''Cmd''" by simp
  from suppressing_init run(1,2) run(3)[unfolded tab] drop r f m' show ?thesis by blast
qed

section \<open>Messages are stored once\<close>

lemma add_set_idem: "add_set (add_set d k S) k S = add_set d k S"
  by (induction d) auto

lemma count_list_distinct: "distinct xs \<Longrightarrow> count_list xs x = (if x \<in> set xs then 1 else 0)"
  by (induction xs) auto

lemma count_list_map_prefix: "count_list (map (\<lambda>m. p @ m) xs) (p @ x) = count_list xs x"
  by (induction xs) auto

lemma count_list_other_prefix:
  "(\<And>y. q @ y \<noteq> z) \<Longrightarrow> count_list (map (\<lambda>m. q @ m) xs) z = 0"
  by (induction xs) auto

lemma bucket_lines:
  assumes io: "\<forall>S. finite S \<longrightarrow> set (order S) = S \<and> distinct (order S)"
    and fin: "\<forall>ms. (x, ms) \<in> set d \<longrightarrow> finite ms"
  shows "\<exists>ms. (case map_of d x of None \<Rightarrow> []
                | Some messages \<Rightarrow> if messages \<noteq> {} then map f (order messages) else [])
              = map f ms \<and> distinct ms \<and> set ms = get_or_empty d x"
proof (cases "map_of d x")
  case None
  then show ?thesis by (simp add: get_or_empty_def)
next
  case (Some messages)
  then have "finite messages" using fin by (auto dest: map_of_SomeD)
  with io have "distinct (order messages)" "set (order messages) = messages" by blast+
  with Some show ?thesis by (cases "messages = {}") (auto simp: get_or_empty_def)
qed

text \<open>
  How often a line occurs in the section of an entity in the report, when a set is
  iterated without repetition: once when its message is stored for the entity, and not
  at all otherwise.
\<close>

lemma print_entity_count:
  assumes io: "\<forall>S. finite S \<longrightarrow> set (iter e S) = S \<and> distinct (iter e S)"
    and fin: "\<forall>x ms. (x, ms) \<in> set (errors s) \<union> set (warnings s) \<longrightarrow> finite ms"
  shows "count_list (print_entity e s x) (''Error: '' @ m)
           = (if m \<in> get_or_empty (errors s) x then 1 else 0) \<and>
         count_list (print_entity e s x) (''Warning: '' @ m)
           = (if m \<in> get_or_empty (warnings s) x then 1 else 0)"
proof -
  from bucket_lines[of "iter e" x "errors s" "\<lambda>m. ''Error: '' @ m"] io fin
  obtain es where es: "(case map_of (errors s) x of None \<Rightarrow> []
        | Some messages \<Rightarrow> if messages \<noteq> {} then map (\<lambda>m. ''Error: '' @ m) (iter e messages) else [])
      = map (\<lambda>m. ''Error: '' @ m) es" "distinct es" "set es = get_or_empty (errors s) x" by auto
  from bucket_lines[of "iter e" x "warnings s" "\<lambda>m. ''Warning: '' @ m"] io fin
  obtain ws where ws: "(case map_of (warnings s) x of None \<Rightarrow> []
        | Some messages \<Rightarrow> if messages \<noteq> {} then map (\<lambda>m. ''Warning: '' @ m) (iter e messages) else [])
      = map (\<lambda>m. ''Warning: '' @ m) ws" "distinct ws" "set ws = get_or_empty (warnings s) x" by auto
  have p: "print_entity e s x =
              [[], ''-------------------'', ''Messages for '' @ x, []]
              @ map (\<lambda>m. ''Error: '' @ m) es @ map (\<lambda>m. ''Warning: '' @ m) ws"
    unfolding print_entity_def es(1) ws(1) ..
  have e0: "count_list (map (\<lambda>m. ''Warning: '' @ m) ws) (''Error: '' @ m) = 0"
    by (rule count_list_other_prefix) simp
  have w0: "count_list (map (\<lambda>m. ''Error: '' @ m) es) (''Warning: '' @ m) = 0"
    by (rule count_list_other_prefix) simp
  have he: "count_list [[], ''-------------------'', ''Messages for '' @ x, []] (''Error: '' @ m) = 0"
    by simp
  have hw: "count_list [[], ''-------------------'', ''Messages for '' @ x, []] (''Warning: '' @ m) = 0"
    by simp
  have e1: "count_list (map (\<lambda>m. ''Error: '' @ m) es) (''Error: '' @ m) = count_list es m"
    by (rule count_list_map_prefix)
  have w1: "count_list (map (\<lambda>m. ''Warning: '' @ m) ws) (''Warning: '' @ m) = count_list ws m"
    by (rule count_list_map_prefix)
  have "count_list (print_entity e s x) (''Error: '' @ m) = 0 + (count_list es m + 0)"
    unfolding p by (simp only: count_list_append he e1 e0)
  then have a: "count_list (print_entity e s x) (''Error: '' @ m) = count_list es m" by simp
  have "count_list (print_entity e s x) (''Warning: '' @ m) = 0 + (0 + count_list ws m)"
    unfolding p by (simp only: count_list_append hw w1 w0)
  then have b: "count_list (print_entity e s x) (''Warning: '' @ m) = count_list ws m" by simp
  show ?thesis
    unfolding a b count_list_distinct[OF es(2)] count_list_distinct[OF ws(2)] es(3) ws(3) by simp
qed

lemma finite_add_set:
  "\<forall>y ms. (y, ms) \<in> set d \<longrightarrow> finite ms \<Longrightarrow> finite S \<Longrightarrow>
   \<forall>y ms. (y, ms) \<in> set (add_set d k S) \<longrightarrow> finite ms"
  by (induction d) (auto split: if_splits)


lemma overlap_iter_distinct:
  "\<forall>S. finite S \<longrightarrow> set (iter overlap_env S) = S \<and> distinct (iter overlap_env S)"
  by (simp add: overlap_env_def)

text \<open>
  C10, as the specification states it, fails: a message that is registered as a
  suppression for the entity is recorded, as an error and as a warning, any number of
  times, and no copy of it is stored; the section of the entity in the report has no
  line for it.
\<close>

theorem suppressed_message_counterexample:
  "record_error overlap_env [overlap_message] no_kwargs
       (set_error_context ''Cmd'' (c_elem overlap_cmd) suppressing_checker)
     = Return (set_error_context ''Cmd'' (c_elem overlap_cmd) suppressing_checker) \<and>
   record_warning overlap_env [overlap_message] no_kwargs
       (set_error_context ''Cmd'' (c_elem overlap_cmd) suppressing_checker)
     = Return (set_error_context ''Cmd'' (c_elem overlap_cmd) suppressing_checker) \<and>
   get_or_empty (errors (set_error_context ''Cmd'' (c_elem overlap_cmd) suppressing_checker)) ''Cmd'' = {} \<and>
   get_or_empty (warnings (set_error_context ''Cmd'' (c_elem overlap_cmd) suppressing_checker)) ''Cmd'' = {} \<and>
   print_entity overlap_env (set_error_context ''Cmd'' (c_elem overlap_cmd) suppressing_checker) ''Cmd''
     = [[], ''-------------------'', ''Messages for Cmd'', []]"
  by (simp add: record_error_def record_warning_def set_error_context_def suppressing_checker_def
      plain_checker_def overlap_cmd_def suppressed_def get_or_empty_def print_entity_def)

text \<open>
  C10, amended: the errors and the warnings of an entity are sets of decorated messages.
  In the error context that \<open>set_error_context\<close> sets for an entity and its element, for
  a message that the table of suppressions does not hold for the name of the element:
  \<open>record_error\<close> returns; a second call with arguments that render to the same message
  leaves the checker as the first call left it; the errors of the entity are then those
  it had, and the decorated message; and, when a set is iterated without repetition,
  the section of the entity in the report has the line of the message exactly once. The
  same holds of \<open>record_warning\<close> and the warnings. In every state, a second call leaves
  the checker as the first one left it, and no error line or warning line occurs more
  than once in the section of an entity.
\<close>

theorem messages_stored_once:
  assumes io: "\<forall>S. finite S \<longrightarrow> set (iter e S) = S \<and> distinct (iter e S)"
    and fin: "\<forall>x ms. (x, ms) \<in> set (errors s) \<union> set (warnings s) \<longrightarrow> finite ms"
  shows "(\<forall>x el args args' kw.
            join '' '' args \<notin> get_or_empty (suppressions s) (e_name el) \<longrightarrow>
            join '' '' args' = join '' '' args \<longrightarrow>
            (\<exists>c s1. ctx (set_error_context x el s) = Some c \<and>
               record_error e args kw (set_error_context x el s) = Return s1 \<and>
               record_error e args' kw s1 = Return s1 \<and>
               get_or_empty (errors s1) x
                 = insert (prepend_sourceline_to_message e c (join '' '' args) kw)
                     (get_or_empty (errors s) x) \<and>
               count_list (print_entity e s1 x)
                 (''Error: '' @ prepend_sourceline_to_message e c (join '' '' args) kw) = 1)) \<and>
         (\<forall>x el args args' kw.
            join '' '' args \<notin> get_or_empty (suppressions s) (e_name el) \<longrightarrow>
            join '' '' args' = join '' '' args \<longrightarrow>
            (\<exists>c s1. ctx (set_error_context x el s) = Some c \<and>
               record_warning e args kw (set_error_context x el s) = Return s1 \<and>
               record_warning e args' kw s1 = Return s1 \<and>
               get_or_empty (warnings s1) x
                 = insert (prepend_sourceline_to_message e c (join '' '' args) kw)
                     (get_or_empty (warnings s) x) \<and>
               count_list (print_entity e s1 x)
                 (''Warning: '' @ prepend_sourceline_to_message e c (join '' '' args) kw) = 1)) \<and>
         (\<forall>args args' kw s1. record_error e args kw s = Return s1 \<longrightarrow>
             join '' '' args' = join '' '' args \<longrightarrow> record_error e args' kw s1 = Return s1) \<and>
         (\<forall>args args' kw s1. record_warning e args kw s = Return s1 \<longrightarrow>
             join '' '' args' = join '' '' args \<longrightarrow> record_warning e args' kw s1 = Return s1) \<and>
         (\<forall>x m. count_list (print_entity e s x) (''Error: '' @ m) \<le> 1 \<and>
                count_list (print_entity e s x) (''Warning: '' @ m) \<le> 1)"
proof -
  have err: "record_error e args' kw s1 = Return s1"
    if "record_error e args kw s = Return s1" "join '' '' args' = join '' '' args"
    for args args' kw s s1
    using that
    by (auto simp: record_error_def Let_def add_set_idem split: option.splits if_splits)
  have warn: "record_warning e args' kw s1 = Return s1"
    if "record_warning e args kw s = Return s1" "join '' '' args' = join '' '' args"
    for args args' kw s s1
    using that
    by (auto simp: record_warning_def Let_def add_set_idem split: option.splits if_splits)
  have lines: "count_list (print_entity e s x) (''Error: '' @ m) \<le> 1 \<and>
               count_list (print_entity e s x) (''Warning: '' @ m) \<le> 1" for x m
    using print_entity_count[OF io fin, of x m] by simp
  have fe: "\<forall>y ms. (y, ms) \<in> set (errors s) \<longrightarrow> finite ms" using fin by blast
  have fw: "\<forall>y ms. (y, ms) \<in> set (warnings s) \<longrightarrow> finite ms" using fin by blast
  have stored_e: "\<exists>c s1. ctx (set_error_context x el s) = Some c \<and>
               record_error e args kw (set_error_context x el s) = Return s1 \<and>
               record_error e args' kw s1 = Return s1 \<and>
               get_or_empty (errors s1) x
                 = insert (prepend_sourceline_to_message e c (join '' '' args) kw)
                     (get_or_empty (errors s) x) \<and>
               count_list (print_entity e s1 x)
                 (''Error: '' @ prepend_sourceline_to_message e c (join '' '' args) kw) = 1"
    if ns: "join '' '' args \<notin> get_or_empty (suppressions s) (e_name el)"
      and same: "join '' '' args' = join '' '' args" for x el args args' kw
  proof -
    let ?S = "set_error_context x el s"
    from set_error_context_ctx[of x el s] obtain c
      where c: "ctx ?S = Some c" and x: "entity c = x"
        and m: "\<forall>m. suppressed c m = (m \<in> get_or_empty (suppressions s) (e_name el))" by blast
    let ?M = "prepend_sourceline_to_message e c (join '' '' args) kw"
    let ?s1 = "?S\<lparr>fail := True, errors := add_set (errors ?S) x {?M}\<rparr>"
    from m ns have n: "\<not> suppressed c (join '' '' args)" by simp
    have r: "record_error e args kw ?S = Return ?s1"
      using c x n by (simp add: record_error_def Let_def)
    have r2: "record_error e args' kw ?s1 = Return ?s1" using r same by (rule err)
    have es: "errors ?S = errors s" "warnings ?S = warnings s"
      by (simp_all add: set_error_context_def)
    have g: "get_or_empty (errors ?s1) x = insert ?M (get_or_empty (errors s) x)"
      by (simp add: get_or_empty_add_set es)
    have "\<forall>y ms. (y, ms) \<in> set (add_set (errors s) x {?M}) \<longrightarrow> finite ms"
      by (rule finite_add_set[OF fe]) simp
    then have fin1: "\<forall>y ms. (y, ms) \<in> set (errors ?s1) \<union> set (warnings ?s1) \<longrightarrow> finite ms"
      using fw by (auto simp: es)
    from print_entity_count[OF io fin1, of x ?M] g
    have "count_list (print_entity e ?s1 x) (''Error: '' @ ?M) = 1" by simp
    with c r r2 g show ?thesis by blast
  qed
  have stored_w: "\<exists>c s1. ctx (set_error_context x el s) = Some c \<and>
               record_warning e args kw (set_error_context x el s) = Return s1 \<and>
               record_warning e args' kw s1 = Return s1 \<and>
               get_or_empty (warnings s1) x
                 = insert (prepend_sourceline_to_message e c (join '' '' args) kw)
                     (get_or_empty (warnings s) x) \<and>
               count_list (print_entity e s1 x)
                 (''Warning: '' @ prepend_sourceline_to_message e c (join '' '' args) kw) = 1"
    if ns: "join '' '' args \<notin> get_or_empty (suppressions s) (e_name el)"
      and same: "join '' '' args' = join '' '' args" for x el args args' kw
  proof -
    let ?S = "set_error_context x el s"
    from set_error_context_ctx[of x el s] obtain c
      where c: "ctx ?S = Some c" and x: "entity c = x"
        and m: "\<forall>m. suppressed c m = (m \<in> get_or_empty (suppressions s) (e_name el))" by blast
    let ?M = "prepend_sourceline_to_message e c (join '' '' args) kw"
    let ?s1 = "?S\<lparr>warnings := add_set (warnings ?S) x {?M}\<rparr>"
    from m ns have n: "\<not> suppressed c (join '' '' args)" by simp
    have r: "record_warning e args kw ?S = Return ?s1"
      using c x n by (simp add: record_warning_def Let_def)
    have r2: "record_warning e args' kw ?s1 = Return ?s1" using r same by (rule warn)
    have es: "errors ?S = errors s" "warnings ?S = warnings s"
      by (simp_all add: set_error_context_def)
    have g: "get_or_empty (warnings ?s1) x = insert ?M (get_or_empty (warnings s) x)"
      by (simp add: get_or_empty_add_set es)
    have "\<forall>y ms. (y, ms) \<in> set (add_set (warnings s) x {?M}) \<longrightarrow> finite ms"
      by (rule finite_add_set[OF fw]) simp
    then have fin1: "\<forall>y ms. (y, ms) \<in> set (errors ?s1) \<union> set (warnings ?s1) \<longrightarrow> finite ms"
      using fe by (auto simp: es)
    from print_entity_count[OF io fin1, of x ?M] g
    have "count_list (print_entity e ?s1 x) (''Warning: '' @ ?M) = 1" by simp
    with c r r2 g show ?thesis by blast
  qed
  show ?thesis
    apply (intro conjI allI impI)
    subgoal by (rule stored_e)
    subgoal by (rule stored_w)
    subgoal by (rule err)
    subgoal by (rule warn)
    subgoal using lines by blast
    subgoal using lines by blast
    done
qed

theorem messages_stored_once_witness:
  "(\<exists>s1. record_error overlap_env [''a'', ''b''] no_kwargs
            (set_error_context ''Cmd'' (c_elem overlap_cmd) suppressing_checker) = Return s1 \<and>
        record_error overlap_env [''a b''] no_kwargs s1 = Return s1 \<and>
        get_or_empty (errors s1) ''Cmd'' = {''a b''} \<and>
        count_list (print_entity overlap_env s1 ''Cmd'') ''Error: a b'' = 1) \<and>
   (\<exists>s1. record_warning overlap_env [''a'', ''b''] no_kwargs
            (set_error_context ''Cmd'' (c_elem overlap_cmd) suppressing_checker) = Return s1 \<and>
        record_warning overlap_env [''a b''] no_kwargs s1 = Return s1 \<and>
        get_or_empty (warnings s1) ''Cmd'' = {''a b''} \<and>
        count_list (print_entity overlap_env s1 ''Cmd'') ''Warning: a b'' = 1)"
proof -
  let ?S = "set_error_context ''Cmd'' (c_elem overlap_cmd) suppressing_checker"
  have fin: "\<forall>x ms. (x, ms) \<in> set (errors suppressing_checker) \<union> set (warnings suppressing_checker)
               \<longrightarrow> finite ms"
    by (simp add: suppressing_checker_def plain_checker_def)
  have ns: "join '' '' [''a'', ''b'']
      \<notin> get_or_empty (suppressions suppressing_checker) (e_name (c_elem overlap_cmd))"
    by (simp add: suppressing_checker_def plain_checker_def overlap_cmd_def get_or_empty_def
        overlap_message_def)
  have j: "join '' '' [''a b''] = join '' '' [''a'', ''b'']" by simp
  have m: "prepend_sourceline_to_message overlap_env c (join '' '' [''a'', ''b'']) no_kwargs = ''a b''"
    if "ctx ?S = Some c" for c
  proof -
    from that have "ctx_elem c = c_elem overlap_cmd" by (auto simp: set_error_context_def)
    then show ?thesis
      by (simp add: prepend_sourceline_to_message_def no_kwargs_def overlap_env_def overlap_cmd_def)
  qed
  have e0: "get_or_empty (errors suppressing_checker) ''Cmd'' = {}"
    "get_or_empty (warnings suppressing_checker) ''Cmd'' = {}"
    by (simp_all add: suppressing_checker_def plain_checker_def get_or_empty_def)
  note inst = messages_stored_once[OF overlap_iter_distinct fin]
  note errs = inst[THEN conjunct1, rule_format, OF ns j]
  note warns = inst[THEN conjunct2, THEN conjunct1, rule_format, OF ns j]
  from errs[of "''Cmd''" no_kwargs]
  obtain c s1 where c: "ctx ?S = Some c"
    and r: "record_error overlap_env [''a'', ''b''] no_kwargs ?S = Return s1"
    and r2: "record_error overlap_env [''a b''] no_kwargs s1 = Return s1"
    and g: "get_or_empty (errors s1) ''Cmd''
              = insert (prepend_sourceline_to_message overlap_env c (join '' '' [''a'', ''b'']) no_kwargs)
                  (get_or_empty (errors suppressing_checker) ''Cmd'')"
    and n: "count_list (print_entity overlap_env s1 ''Cmd'')
              (''Error: '' @ prepend_sourceline_to_message overlap_env c (join '' '' [''a'', ''b'']) no_kwargs) = 1"
    by (elim exE conjE)
  from g have g': "get_or_empty (errors s1) ''Cmd'' = {''a b''}" unfolding m[OF c] e0 .
  from n have n': "count_list (print_entity overlap_env s1 ''Cmd'') ''Error: a b'' = 1"
    unfolding m[OF c] by simp
  from warns[of "''Cmd''" no_kwargs]
  obtain d s2 where d: "ctx ?S = Some d"
    and w: "record_warning overlap_env [''a'', ''b''] no_kwargs ?S = Return s2"
    and w2: "record_warning overlap_env [''a b''] no_kwargs s2 = Return s2"
    and h: "get_or_empty (warnings s2) ''Cmd''
              = insert (prepend_sourceline_to_message overlap_env d (join '' '' [''a'', ''b'']) no_kwargs)
                  (get_or_empty (warnings suppressing_checker) ''Cmd'')"
    and k: "count_list (print_entity overlap_env s2 ''Cmd'')
              (''Warning: '' @ prepend_sourceline_to_message overlap_env d (join '' '' [''a'', ''b'']) no_kwargs) = 1"
    by (elim exE conjE)
  from h have h': "get_or_empty (warnings s2) ''Cmd'' = {''a b''}" unfolding m[OF d] e0 .
  from k have k': "count_list (print_entity overlap_env s2 ''Cmd'') ''Warning: a b'' = 1"
    unfolding m[OF d] by simp
  from r r2 g' n' w w2 h' k' show ?thesis by blast
qed

end
